theory Spec2Isabelle
  imports Main "HOL-Library.Sublist"
begin

section \<open>Go library functions used by the SSH-config editor\<close>

text \<open>
  Go strings are byte sequences; they are modelled as \<open>string\<close> (a list of 8-bit
  characters). The library functions below are the ones \<open>internal/auth/auth.go\<close>
  (package \<open>ssh\<close>) calls, with the behaviour they have on a Unix system.
\<close>

abbreviation NL :: char where "NL \<equiv> CHR 0x0A"
abbreviation CR :: char where "CR \<equiv> CHR 0x0D"
abbreviation TAB :: char where "TAB \<equiv> CHR 0x09"

text \<open>\<open>strings.Join(elems, sep)\<close>.\<close>

fun Join :: "string list \<Rightarrow> string \<Rightarrow> string" where
  "Join [] sep = []"
| "Join [x] sep = x"
| "Join (x # y # ys) sep = x @ sep @ Join (y # ys) sep"

text \<open>
  The regular-expression class \<open>\s\<close> of Go's \<open>regexp\<close> (RE2 syntax): tab, newline,
  form feed, carriage return and space. Vertical tab is not in it.
\<close>

definition isSpaceRE :: "char \<Rightarrow> bool" where
  "isSpaceRE c = (c = TAB \<or> c = NL \<or> c = CHR 0x0C \<or> c = CR \<or> c = CHR '' '')"

text \<open>
  \<open>unicode.IsSpace\<close>, on UTF-8 bytes: the white-space runes U+0009..U+000D, U+0020,
  U+0085, U+00A0, U+1680, U+2000..U+200A, U+2028, U+2029, U+202F, U+205F and U+3000,
  each as its encoding.
\<close>

definition spaceRunes :: "string list" where
  "spaceRunes =
    [[TAB], [NL], [CHR 0x0B], [CHR 0x0C], [CR], [CHR '' ''],
     [CHR 0xC2, CHR 0x85], [CHR 0xC2, CHR 0xA0],
     [CHR 0xE1, CHR 0x9A, CHR 0x80],
     [CHR 0xE2, CHR 0x80, CHR 0x80], [CHR 0xE2, CHR 0x80, CHR 0x81],
     [CHR 0xE2, CHR 0x80, CHR 0x82], [CHR 0xE2, CHR 0x80, CHR 0x83],
     [CHR 0xE2, CHR 0x80, CHR 0x84], [CHR 0xE2, CHR 0x80, CHR 0x85],
     [CHR 0xE2, CHR 0x80, CHR 0x86], [CHR 0xE2, CHR 0x80, CHR 0x87],
     [CHR 0xE2, CHR 0x80, CHR 0x88], [CHR 0xE2, CHR 0x80, CHR 0x89],
     [CHR 0xE2, CHR 0x80, CHR 0x8A],
     [CHR 0xE2, CHR 0x80, CHR 0xA8], [CHR 0xE2, CHR 0x80, CHR 0xA9],
     [CHR 0xE2, CHR 0x80, CHR 0xAF],
     [CHR 0xE2, CHR 0x81, CHR 0x9F],
     [CHR 0xE3, CHR 0x80, CHR 0x80]]"

text \<open>
  \<open>strings.TrimSpace\<close>: white-space runes are removed from the left, decoding forwards,
  then from the right, decoding the last rune backwards. A byte that does not start one
  of the encodings above decodes to a rune that is not white space and stops the trim.
\<close>

function trimLeftSpace :: "string \<Rightarrow> string" where
  "trimLeftSpace s =
     (case find (\<lambda>e. prefix e s) spaceRunes of
        None \<Rightarrow> s
      | Some e \<Rightarrow> trimLeftSpace (drop (length e) s))"
  by pat_completeness auto
termination
proof (relation "measure length")
  fix s e
  assume "find (\<lambda>e. prefix e s) spaceRunes = Some e"
  then have "e \<in> set spaceRunes" and "prefix e s"
    by (auto simp: find_Some_iff)
  then have "e \<noteq> []" and "length e \<le> length s"
    by (auto simp: spaceRunes_def prefix_length_le)
  then show "(drop (length e) s, s) \<in> measure length"
    by (cases s) auto
qed simp

function trimRightSpace :: "string \<Rightarrow> string" where
  "trimRightSpace s =
     (case find (\<lambda>e. suffix e s) spaceRunes of
        None \<Rightarrow> s
      | Some e \<Rightarrow> trimRightSpace (take (length s - length e) s))"
  by pat_completeness auto
termination
proof (relation "measure length")
  fix s e
  assume "find (\<lambda>e. suffix e s) spaceRunes = Some e"
  then have "e \<in> set spaceRunes" and "suffix e s"
    by (auto simp: find_Some_iff)
  then have "e \<noteq> []" and "length e \<le> length s"
    by (auto simp: spaceRunes_def suffix_length_le)
  then show "(take (length s - length e) s, s) \<in> measure length"
    by (cases s) auto
qed simp

declare trimLeftSpace.simps [simp del] trimRightSpace.simps [simp del]

definition TrimSpace :: "string \<Rightarrow> string" where
  "TrimSpace s = trimRightSpace (trimLeftSpace s)"

text \<open>\<open>strings.TrimLeft(line, " \t")\<close>, and the leading run it removes.\<close>

definition isBlank :: "char \<Rightarrow> bool" where
  "isBlank c = (c = CHR '' '' \<or> c = TAB)"

definition TrimLeft :: "string \<Rightarrow> string" where
  "TrimLeft line = dropWhile isBlank line"

text \<open>
  \<open>filepath.Clean\<close> on Unix, element by element: empty and \<open>.\<close> elements are dropped,
  \<open>..\<close> removes the element before it when there is one past the leading \<open>..\<close>
  elements, is kept when the path is not rooted, and is dropped at the root.
\<close>

fun splitOn :: "char \<Rightarrow> string \<Rightarrow> string list" where
  "splitOn c [] = [[]]"
| "splitOn c (x # xs) =
     (if x = c then [] # splitOn c xs
      else (case splitOn c xs of [] \<Rightarrow> [[x]] | y # ys \<Rightarrow> (x # y) # ys))"

fun cleanLoop :: "bool \<Rightarrow> string list \<Rightarrow> string list \<Rightarrow> nat \<Rightarrow> string list" where
  "cleanLoop rooted [] out dotdot = out"
| "cleanLoop rooted (e # es) out dotdot =
     (if e = [] \<or> e = ''.'' then cleanLoop rooted es out dotdot
      else if e = ''..'' then
        (if length out > dotdot then cleanLoop rooted es (butlast out) dotdot
         else if \<not> rooted then cleanLoop rooted es (out @ [''..'']) (Suc (length out))
         else cleanLoop rooted es out dotdot)
      else cleanLoop rooted es (out @ [e]) dotdot)"

definition Clean :: "string \<Rightarrow> string" where
  "Clean path =
     (if path = [] then ''.''
      else
        let rooted = (hd path = CHR ''/'');
            out = cleanLoop rooted (splitOn (CHR ''/'') path) [] 0
        in if rooted then CHR ''/'' # Join out ''/''
           else if out = [] then ''.''
           else Join out ''/'')"

text \<open>
  \<open>filepath.Join\<close>: the elements from the first non-empty one on are joined with
  the separator and cleaned; with no such element the result is empty.
\<close>

definition filepath_Join :: "string list \<Rightarrow> string" where
  "filepath_Join elem =
     (case dropWhile (\<lambda>e. e = []) elem of
        [] \<Rightarrow> []
      | es \<Rightarrow> Clean (Join es ''/''))"

text \<open>
  \<open>os.UserHomeDir\<close> on Unix reads \<open>$HOME\<close> and fails when it is empty. The value of
  \<open>$HOME\<close> is a parameter of every function that reads it.
\<close>

definition UserHomeDir :: "string \<Rightarrow> string option" where
  "UserHomeDir HOME = (if HOME = [] then None else Some HOME)"

section \<open>The two patterns\<close>

text \<open>
  A literal under \<open>(?i)\<close>: each letter matches its lower and upper case; Go folds by
  Unicode simple folding, so \<open>s\<close> also matches U+017F (bytes C5 BF) and \<open>k\<close> also
  matches U+212A (bytes E2 84 AA). The literal is given in lower case; the result is
  the input left after it.
\<close>

definition asciiLower :: "char \<Rightarrow> char" where
  "asciiLower c =
     (let n = (of_char c :: nat) in if 65 \<le> n \<and> n \<le> 90 then char_of (n + 32) else c)"

fun foldLit :: "string \<Rightarrow> string \<Rightarrow> string option" where
  "foldLit [] s = Some s"
| "foldLit (c # cs) [] = None"
| "foldLit (c # cs) (d # ds) =
     (if asciiLower d = c then foldLit cs ds
      else if c = CHR ''s'' \<and> prefix [CHR 0xC5, CHR 0xBF] (d # ds) then foldLit cs (drop 1 ds)
      else if c = CHR ''k'' \<and> prefix [CHR 0xE2, CHR 0x84, CHR 0xAA] (d # ds)
        then foldLit cs (drop 2 ds)
      else None)"

text \<open>
  The common tail \<open>\s+(.+?)\s*$\<close> of both patterns, as the backtracking search that
  defines which match Go reports (leftmost-first): \<open>\s+\<close> takes the longest run of
  white space first and gives one character back at a time; \<open>.+?\<close> takes one character
  other than newline and one more at a time, stopping at the first length after which
  only white space remains up to the end of the text. The result is the text of the
  capture group.
\<close>

fun lazyDot :: "string \<Rightarrow> string \<Rightarrow> string option" where
  "lazyDot acc [] = Some acc"
| "lazyDot acc (c # cs) =
     (if list_all isSpaceRE (c # cs) then Some acc
      else if c = NL then None
      else lazyDot (acc @ [c]) cs)"

definition dotPlus :: "string \<Rightarrow> string option" where
  "dotPlus s = (case s of [] \<Rightarrow> None | c # cs \<Rightarrow> if c = NL then None else lazyDot [c] cs)"

fun greedyWs :: "nat \<Rightarrow> string \<Rightarrow> string option" where
  "greedyWs 0 r = None"
| "greedyWs (Suc k) r =
     (case dotPlus (drop (Suc k) r) of Some m \<Rightarrow> Some m | None \<Rightarrow> greedyWs k r)"

definition tailMatch :: "string \<Rightarrow> string option" where
  "tailMatch r = greedyWs (length (takeWhile isSpaceRE r)) r"

text \<open>
  \<open>hostPattern = (?i)^\s*Host\s+(.+?)\s*$\<close>; the result is submatch 1. The leading
  \<open>\s*\<close> has to take all the white space, since the next character must be a letter.
\<close>

definition hostPattern :: "string \<Rightarrow> string option" where
  "hostPattern line =
     (case foldLit ''host'' (dropWhile isSpaceRE line) of
        None \<Rightarrow> None
      | Some r \<Rightarrow> tailMatch r)"

text \<open>
  \<open>identityFilePattern = (?i)^\s*(#\s*)?(IdentityFile)\s+(.+?)\s*$\<close>; the result is
  the pair of submatch 1 (empty when the group took no part) and submatch 3.
\<close>

definition identityFilePattern :: "string \<Rightarrow> (string \<times> string) option" where
  "identityFilePattern line =
     (let s1 = dropWhile isSpaceRE line;
          (m1, s2) = (case s1 of
                        [] \<Rightarrow> ([], s1)
                      | c # t \<Rightarrow> if c = CHR ''#''
                                 then (c # takeWhile isSpaceRE t, dropWhile isSpaceRE t)
                                 else ([], s1))
      in case foldLit ''identityfile'' s2 of
           None \<Rightarrow> None
         | Some r \<Rightarrow> map_option (Pair m1) (tailMatch r))"

section \<open>Data model\<close>

text \<open>
  The structs of the source. Two field names are changed because a record field is a
  constant of the theory: \<open>HostBlock.Lines\<close> is \<open>BLines\<close> and \<open>ConfigFile.Path\<close> is
  \<open>CfgPath\<close>. Line numbers are indices of a slice, so they are natural numbers.
\<close>

record IdentityFileLine =
  LineIndex :: nat
  Path :: string
  IsCommented :: bool
  FullLine :: string

record HostBlock =
  StartLine :: nat
  EndLine :: nat
  Hostname :: string
  BLines :: "string list"
  IdentityFiles :: "IdentityFileLine list"

record ConfigFile =
  CfgPath :: string
  Lines :: "string list"
  Blocks :: "HostBlock list"

section \<open>The block parser\<close>

text \<open>
  The loop of \<open>parseBlocks\<close>: \<open>i\<close> is the index of the next line, \<open>cur\<close> the block
  being read (\<open>currentBlock\<close>, \<open>None\<close> for nil) and \<open>bs\<close> the blocks closed so far.
  \<open>EndLine\<close> of an open block is the zero value until the block is closed.
\<close>

definition closeBlock :: "HostBlock option \<Rightarrow> nat \<Rightarrow> HostBlock list" where
  "closeBlock cur i = (case cur of None \<Rightarrow> [] | Some b \<Rightarrow> [b\<lparr>EndLine := i\<rparr>])"

definition addLine :: "HostBlock \<Rightarrow> string \<Rightarrow> HostBlock" where
  "addLine b line =
     (let b1 = b\<lparr>BLines := BLines b @ [line]\<rparr>
      in case identityFilePattern line of
           None \<Rightarrow> b1
         | Some (m1, m3) \<Rightarrow>
             b1\<lparr>IdentityFiles := IdentityFiles b1 @
                  [\<lparr>LineIndex = length (BLines b1) - 1,
                    Path = TrimSpace m3,
                    IsCommented = (m1 \<noteq> []),
                    FullLine = line\<rparr>]\<rparr>)"

fun parseLoop ::
  "nat \<Rightarrow> string list \<Rightarrow> HostBlock option \<Rightarrow> HostBlock list
     \<Rightarrow> HostBlock option \<times> HostBlock list" where
  "parseLoop i [] cur bs = (cur, bs)"
| "parseLoop i (line # rest) cur bs =
     (case hostPattern line of
        Some m \<Rightarrow>
          parseLoop (Suc i) rest
            (Some \<lparr>StartLine = i, EndLine = 0, Hostname = TrimSpace m,
                   BLines = [line], IdentityFiles = []\<rparr>)
            (bs @ closeBlock cur i)
      | None \<Rightarrow>
          (case cur of
             None \<Rightarrow> parseLoop (Suc i) rest None bs
           | Some b \<Rightarrow> parseLoop (Suc i) rest (Some (addLine b line)) bs))"

definition parseBlocks :: "ConfigFile \<Rightarrow> ConfigFile" where
  "parseBlocks c =
     (case parseLoop 0 (Lines c) None [] of
        (cur, bs) \<Rightarrow> c\<lparr>Blocks := bs @ closeBlock cur (length (Lines c))\<rparr>)"

section \<open>Locator\<close>

fun findBlock :: "string \<Rightarrow> HostBlock list \<Rightarrow> HostBlock option" where
  "findBlock hostname [] = None"
| "findBlock hostname (b # bs) =
     (if Hostname b = hostname then Some b else findBlock hostname bs)"

definition FindHostBlock :: "ConfigFile \<Rightarrow> string \<Rightarrow> HostBlock option" where
  "FindHostBlock c hostname = findBlock hostname (Blocks c)"

fun firstActive :: "IdentityFileLine list \<Rightarrow> string" where
  "firstActive [] = []"
| "firstActive (ifl # rest) = (if \<not> IsCommented ifl then Path ifl else firstActive rest)"

definition GetActiveIdentityFile :: "ConfigFile \<Rightarrow> string \<Rightarrow> string" where
  "GetActiveIdentityFile c hostname =
     (case FindHostBlock c hostname of
        None \<Rightarrow> []
      | Some block \<Rightarrow> firstActive (IdentityFiles block))"

section \<open>Activator\<close>

text \<open>
  The failures of the source are \<open>fmt.Errorf\<close> values; each gets a constructor. The
  first two are the NotFound conditions of the activator, the others are the I/O
  failures of reading and saving.
\<close>

datatype error =
    NoHostBlock string
  | IdentityFileNotFound string string
  | OpenFailed string
  | ErrTooLong
  | BackupReadFailed
  | BackupWriteFailed
  | WriteFailed

fun isNotFound :: "error \<Rightarrow> bool" where
  "isNotFound (NoHostBlock h) = True"
| "isNotFound (IdentityFileNotFound k h) = True"
| "isNotFound e = False"

definition normalizePath :: "string \<Rightarrow> string \<Rightarrow> string" where
  "normalizePath HOME p =
     Clean (if prefix ''~/'' p
            then (case UserHomeDir HOME of
                    Some home \<Rightarrow> filepath_Join [home, drop 2 p]
                  | None \<Rightarrow> p)
            else p)"

definition uncommentIdentityFile :: "string \<Rightarrow> string" where
  "uncommentIdentityFile line =
     (case identityFilePattern line of
        None \<Rightarrow> line
      | Some (m1, m3) \<Rightarrow> takeWhile isBlank line @ ''IdentityFile '' @ TrimSpace m3)"

definition commentIdentityFile :: "string \<Rightarrow> string" where
  "commentIdentityFile line =
     (case identityFilePattern line of
        None \<Rightarrow> line
      | Some (m1, m3) \<Rightarrow>
          if m1 \<noteq> [] then line
          else takeWhile isBlank line @ ''# IdentityFile '' @ TrimSpace m3)"

text \<open>
  \<open>detectIndent\<close> slices \<open>lines[1:]\<close>, which panics on an empty slice: the result is
  \<open>None\<close> there.
\<close>

fun scanIndent :: "string list \<Rightarrow> string" where
  "scanIndent [] = ''    ''"
| "scanIndent (line # rest) =
     (let trimmed = TrimLeft line
      in if trimmed \<noteq> [] \<and> trimmed \<noteq> line
         then take (length line - length trimmed) line
         else scanIndent rest)"

definition detectIndent :: "string list \<Rightarrow> string option" where
  "detectIndent lines = (case lines of [] \<Rightarrow> None | h # rest \<Rightarrow> Some (scanIndent rest))"

text \<open>The search loop shared by \<open>ActivateKey\<close> and \<open>AddIdentityFile\<close>.\<close>

fun keyInBlock :: "string \<Rightarrow> string \<Rightarrow> IdentityFileLine list \<Rightarrow> bool" where
  "keyInBlock HOME nk [] = False"
| "keyInBlock HOME nk (ifl # rest) =
     (if normalizePath HOME (Path ifl) = nk then True else keyInBlock HOME nk rest)"

text \<open>
  The rewriting loop of \<open>ActivateKey\<close> over the entries of the block, on the line
  sequence it updates in place. An index outside the slice panics: \<open>None\<close>.
\<close>

fun activateLoop ::
  "string \<Rightarrow> string \<Rightarrow> nat \<Rightarrow> IdentityFileLine list \<Rightarrow> string list
     \<Rightarrow> string list option" where
  "activateLoop HOME nk start [] ls = Some ls"
| "activateLoop HOME nk start (ifl # rest) ls =
     (let globalLineIdx = start + LineIndex ifl
      in if globalLineIdx < length ls
         then
           (let originalLine = ls ! globalLineIdx
            in if normalizePath HOME (Path ifl) = nk
               then activateLoop HOME nk start rest
                      (ls[globalLineIdx := uncommentIdentityFile originalLine])
               else activateLoop HOME nk start rest
                      (ls[globalLineIdx := commentIdentityFile originalLine]))
         else None)"

text \<open>
  The mutating operations work on the receiver in place and return an error or nil.
  The model returns the error (\<open>None\<close> for nil) with the configuration as it is when
  the call returns; the outer \<open>None\<close> is a run-time panic.
\<close>

definition ActivateKey ::
  "string \<Rightarrow> ConfigFile \<Rightarrow> string \<Rightarrow> string \<Rightarrow> (error option \<times> ConfigFile) option" where
  "ActivateKey HOME c hostname keyPath =
     (case FindHostBlock c hostname of
        None \<Rightarrow> Some (Some (NoHostBlock hostname), c)
      | Some block \<Rightarrow>
          (let normalizedKeyPath = normalizePath HOME keyPath
           in if \<not> keyInBlock HOME normalizedKeyPath (IdentityFiles block)
              then Some (Some (IdentityFileNotFound keyPath hostname), c)
              else
                (case activateLoop HOME normalizedKeyPath (StartLine block)
                        (IdentityFiles block) (Lines c) of
                   None \<Rightarrow> None
                 | Some ls \<Rightarrow> Some (None, parseBlocks (c\<lparr>Lines := ls\<rparr>)))))"

definition AddIdentityFile ::
  "string \<Rightarrow> ConfigFile \<Rightarrow> string \<Rightarrow> string \<Rightarrow> bool
     \<Rightarrow> (error option \<times> ConfigFile) option" where
  "AddIdentityFile HOME c hostname keyPath active =
     (case FindHostBlock c hostname of
        None \<Rightarrow> Some (Some (NoHostBlock hostname), c)
      | Some block \<Rightarrow>
          (let normalizedKeyPath = normalizePath HOME keyPath
           in if keyInBlock HOME normalizedKeyPath (IdentityFiles block)
              then Some (None, c)
              else
                (case detectIndent (BLines block) of
                   None \<Rightarrow> None
                 | Some indent \<Rightarrow>
                     (let newLine = (if active then indent @ ''IdentityFile '' @ keyPath
                                     else indent @ ''# IdentityFile '' @ keyPath);
                          insertIdx = (if IdentityFiles block \<noteq> []
                                       then StartLine block
                                            + LineIndex (last (IdentityFiles block)) + 1
                                       else StartLine block + 1)
                      in if insertIdx \<le> length (Lines c)
                         then Some (None,
                                parseBlocks
                                  (c\<lparr>Lines := take insertIdx (Lines c) @ [newLine]
                                               @ drop insertIdx (Lines c)\<rparr>))
                         else None))))"

section \<open>Reading and writing the file\<close>

text \<open>
  The file system, as far as the editor sees it: the content of each existing file,
  the paths whose opening or reading fails with an error other than that the file
  does not exist (whether a file is there or not), and the paths whose writing fails.
  \<open>os.Open\<close> on a path that holds no file and is not among these fails with a
  not-exist error, which \<open>ParseConfig\<close> turns into the empty configuration.
\<close>

record FileSystem =
  files :: "string \<rightharpoonup> string"
  unreadable :: "string set"
  unwritable :: "string set"

text \<open>
  \<open>bufio.Scanner\<close> with \<open>bufio.ScanLines\<close>: the text is cut at each newline, a last
  line without a newline counts when it is not empty, and one trailing carriage return
  is dropped from each line. A line that does not fit the scanner's buffer of
  \<open>MaxScanTokenSize\<close> bytes with its newline ends the scan with \<open>ErrTooLong\<close>.
\<close>

fun scanTokens :: "string \<Rightarrow> string \<Rightarrow> string list" where
  "scanTokens cur [] = (if cur = [] then [] else [cur])"
| "scanTokens cur (ch # rest) =
     (if ch = NL then cur # scanTokens [] rest else scanTokens (cur @ [ch]) rest)"

definition dropCR :: "string \<Rightarrow> string" where
  "dropCR data = (if data \<noteq> [] \<and> last data = CR then butlast data else data)"

definition MaxScanTokenSize :: nat where
  "MaxScanTokenSize = 65536"

definition scanLines :: "string \<Rightarrow> string list option" where
  "scanLines content =
     (let raw = scanTokens [] content
      in if list_all (\<lambda>l. length l < MaxScanTokenSize) raw
         then Some (map dropCR raw)
         else None)"

definition DefaultConfigPath :: "string \<Rightarrow> string" where
  "DefaultConfigPath HOME =
     (case UserHomeDir HOME of
        None \<Rightarrow> []
      | Some home \<Rightarrow> filepath_Join [home, ''.ssh'', ''config''])"

definition ParseConfig :: "string \<Rightarrow> FileSystem \<Rightarrow> string \<Rightarrow> error + ConfigFile" where
  "ParseConfig HOME fs path0 =
     (let path = (if path0 = [] then DefaultConfigPath HOME else path0)
      in if path \<in> unreadable fs then Inl (OpenFailed path)
         else
           (case files fs path of
              None \<Rightarrow> Inr \<lparr>CfgPath = path, Lines = [], Blocks = []\<rparr>
            | Some content \<Rightarrow>
                (case scanLines content of
                   None \<Rightarrow> Inl ErrTooLong
                 | Some lines \<Rightarrow>
                     Inr (parseBlocks \<lparr>CfgPath = path, Lines = lines, Blocks = []\<rparr>))))"

text \<open>The text \<open>Save\<close> writes, and \<open>Save\<close> with its backup.\<close>

definition saveContent :: "ConfigFile \<Rightarrow> string" where
  "saveContent c =
     (let content = Join (Lines c) [NL]
      in if length (Lines c) > 0 \<and> \<not> suffix [NL] content
         then content @ [NL]
         else content)"

definition writeFile :: "FileSystem \<Rightarrow> string \<Rightarrow> string \<Rightarrow> FileSystem option" where
  "writeFile fs path data =
     (if path \<in> unwritable fs then None
      else Some (fs\<lparr>files := (files fs)(path \<mapsto> data)\<rparr>))"

definition Save :: "ConfigFile \<Rightarrow> FileSystem \<Rightarrow> error option \<times> FileSystem" where
  "Save c fs =
     (let backupPath = CfgPath c @ ''.bak'';
          backup =
            (case files fs (CfgPath c) of
               None \<Rightarrow> Inr fs
             | Some data \<Rightarrow>
                 if CfgPath c \<in> unreadable fs then Inl BackupReadFailed
                 else (case writeFile fs backupPath data of
                         None \<Rightarrow> Inl BackupWriteFailed
                       | Some fs1 \<Rightarrow> Inr fs1))
      in case backup of
           Inl e \<Rightarrow> (Some e, fs)
         | Inr fs1 \<Rightarrow>
             (case writeFile fs1 (CfgPath c) (saveContent c) of
                None \<Rightarrow> (Some WriteFailed, fs1)
              | Some fs2 \<Rightarrow> (None, fs2)))"

section \<open>Notions used in the statements\<close>

text \<open>
  A configuration is parsed when its stored blocks are the blocks the parser produces
  from its current lines: the state of every configuration that \<open>ParseConfig\<close> and
  the mutating operations return.
\<close>

definition parsed :: "ConfigFile \<Rightarrow> bool" where
  "parsed c = (Blocks c = Blocks (parseBlocks c))"

text \<open>
  The structure of a configuration: the host name of each block with the path and the
  commented flag of each of its entries, in the order of the file.
\<close>

definition blockStructure :: "ConfigFile \<Rightarrow> (string \<times> (string \<times> bool) list) list" where
  "blockStructure c =
     map (\<lambda>b. (Hostname b, map (\<lambda>e. (Path e, IsCommented e)) (IdentityFiles b))) (Blocks c)"

text \<open>
  The indentation rule in the words of claim C9: the leading blanks of the first line
  after the host line that differs from itself with its leading blanks stripped, and
  four spaces when there is none.
\<close>

definition specIndent :: "string list \<Rightarrow> string" where
  "specIndent lines =
     (case find (\<lambda>l. TrimLeft l \<noteq> l) (tl lines) of
        None \<Rightarrow> ''    ''
      | Some l \<Rightarrow> takeWhile isBlank l)"

section \<open>Notions used in the proofs\<close>

text \<open>
  A line sequence is a preamble without host declarations followed by segments, each
  a host declaration and the lines up to the next one. \<open>mkBlock\<close> is the block the
  parser builds from a segment that starts at line \<open>i\<close>; \<open>entriesFrom\<close> lists the
  identity-file entries of the lines after the host line. \<open>decomp\<close> splits the lines
  at the first segment with a given host name.
\<close>

definition isHost :: "string \<Rightarrow> bool" where
  "isHost line = (hostPattern line \<noteq> None)"

fun entriesFrom :: "nat \<Rightarrow> string list \<Rightarrow> IdentityFileLine list" where
  "entriesFrom k [] = []"
| "entriesFrom k (l # ls) =
     (case identityFilePattern l of
        None \<Rightarrow> entriesFrom (Suc k) ls
      | Some (m1, m3) \<Rightarrow>
          \<lparr>LineIndex = k, Path = TrimSpace m3, IsCommented = (m1 \<noteq> []), FullLine = l\<rparr>
            # entriesFrom (Suc k) ls)"

definition hostOf :: "string list \<Rightarrow> string" where
  "hostOf seg = (case hostPattern (hd seg) of None \<Rightarrow> [] | Some m \<Rightarrow> TrimSpace m)"

definition mkBlock :: "nat \<Rightarrow> string list \<Rightarrow> HostBlock" where
  "mkBlock i seg =
     \<lparr>StartLine = i, EndLine = i + length seg, Hostname = hostOf seg,
      BLines = seg, IdentityFiles = entriesFrom 1 (tl seg)\<rparr>"

fun mkBlocks :: "nat \<Rightarrow> string list list \<Rightarrow> HostBlock list" where
  "mkBlocks i [] = []"
| "mkBlocks i (s # ss) = mkBlock i s # mkBlocks (i + length s) ss"

definition validSeg :: "string list \<Rightarrow> bool" where
  "validSeg s = (s \<noteq> [] \<and> isHost (hd s) \<and> (\<forall>l \<in> set (tl s). \<not> isHost l))"

definition decomp ::
  "string list \<Rightarrow> string \<Rightarrow> string list \<Rightarrow> string list \<Rightarrow> string list \<Rightarrow> bool" where
  "decomp lines hostname front s post =
     (\<exists>pre ss1 ss2.
        front = pre @ concat ss1 \<and> post = concat ss2 \<and> lines = front @ s @ post \<and>
        (\<forall>l \<in> set pre. \<not> isHost l) \<and>
        (\<forall>x \<in> set ss1. validSeg x \<and> hostOf x \<noteq> hostname) \<and>
        validSeg s \<and> hostOf s = hostname \<and>
        (\<forall>x \<in> set ss2. validSeg x))"

text \<open>A string that no white-space rune starts, and one that none ends.\<close>

definition noLead :: "string \<Rightarrow> bool" where
  "noLead s = (\<forall>e \<in> set spaceRunes. \<not> prefix e s)"

definition noTrail :: "string \<Rightarrow> bool" where
  "noTrail s = (\<forall>e \<in> set spaceRunes. \<not> suffix e s)"

text \<open>
  What \<open>ActivateKey\<close> does to a line of the block and to the entry read from it.
\<close>

definition rewriteLine :: "string \<Rightarrow> string \<Rightarrow> string \<Rightarrow> string" where
  "rewriteLine HOME nk line =
     (case identityFilePattern line of
        None \<Rightarrow> line
      | Some (m1, m3) \<Rightarrow>
          if normalizePath HOME (TrimSpace m3) = nk then uncommentIdentityFile line
          else commentIdentityFile line)"

definition keepEntry :: "string \<Rightarrow> string \<Rightarrow> IdentityFileLine \<Rightarrow> bool" where
  "keepEntry HOME nk e =
     (Path e \<noteq> [] \<or> (IsCommented e \<and> normalizePath HOME (Path e) \<noteq> nk))"

definition updEntry :: "string \<Rightarrow> string \<Rightarrow> IdentityFileLine \<Rightarrow> IdentityFileLine" where
  "updEntry HOME nk e =
     e\<lparr>IsCommented := (normalizePath HOME (Path e) \<noteq> nk),
       FullLine := rewriteLine HOME nk (FullLine e)\<rparr>"

text \<open>
  Where \<open>AddIdentityFile\<close> inserts into a segment, the line it inserts, and the
  segment with that line.
\<close>

definition insertPos :: "string list \<Rightarrow> nat" where
  "insertPos s =
     (if entriesFrom 1 (tl s) \<noteq> [] then LineIndex (last (entriesFrom 1 (tl s))) + 1 else 1)"

definition newLine :: "string list \<Rightarrow> string \<Rightarrow> bool \<Rightarrow> string" where
  "newLine s keyPath active =
     (if active then scanIndent (tl s) @ ''IdentityFile '' @ keyPath
      else scanIndent (tl s) @ ''# IdentityFile '' @ keyPath)"

definition withLine :: "string list \<Rightarrow> string \<Rightarrow> bool \<Rightarrow> string list" where
  "withLine s keyPath active =
     take (insertPos s) s @ newLine s keyPath active # drop (insertPos s) s"

section \<open>Concrete configurations\<close>

text \<open>
  The inputs on which the theorems are evaluated: a home directory, configurations
  parsed from given lines at \<open>/home/u/.ssh/config\<close>, and two file systems.
\<close>

definition exHome :: string where
  "exHome = ''/home/u''"

definition exCfg :: "string list \<Rightarrow> ConfigFile" where
  "exCfg lines = parseBlocks \<lparr>CfgPath = ''/home/u/.ssh/config'', Lines = lines, Blocks = []\<rparr>"

definition exFS :: FileSystem where
  "exFS = \<lparr>files = Map.empty, unreadable = {}, unwritable = {}\<rparr>"

definition exCRFS :: FileSystem where
  "exCRFS = \<lparr>files = [''/home/u/.ssh/config'' \<mapsto> ''Host'' @ [CR, CR, CR, NL]],
             unreadable = {}, unwritable = {}\<rparr>"

definition exWork :: ConfigFile where
  "exWork = exCfg
     [''# keys'', ''Host work'', ''    IdentityFile ~/.ssh/id_work'',
      ''    # IdentityFile ~/.ssh/id_personal'', ''Host home'', ''  User me'']"

definition exWorkAfter :: ConfigFile where
  "exWorkAfter = exCfg
     [''# keys'', ''Host work'', ''    # IdentityFile ~/.ssh/id_work'',
      ''    IdentityFile ~/.ssh/id_personal'', ''Host home'', ''  User me'']"

definition exWorkAdded :: ConfigFile where
  "exWorkAdded = exCfg
     [''# keys'', ''Host work'', ''    IdentityFile ~/.ssh/id_work'',
      ''    # IdentityFile ~/.ssh/id_personal'', ''    # IdentityFile ~/.ssh/id_new'',
      ''Host home'', ''  User me'']"

definition exDup :: ConfigFile where
  "exDup = exCfg
     [''Host work'', ''    IdentityFile ~/.ssh/id_work'',
      ''    # IdentityFile ~/.ssh/id_work'']"

definition exDupAfter :: ConfigFile where
  "exDupAfter = exCfg
     [''Host work'', ''    IdentityFile ~/.ssh/id_work'',
      ''    IdentityFile ~/.ssh/id_work'']"

definition exEmpty :: ConfigFile where
  "exEmpty = exCfg
     [''Host a'', ''    IdentityFile  '']"

definition exEmptyAfter :: ConfigFile where
  "exEmptyAfter = exCfg
     [''Host a'', ''    IdentityFile '']"

definition exFolded :: ConfigFile where
  "exFolded = exCfg
     [''Host work'', ''  identityfile   ~/.ssh/id_work'',
      ''  #IdentityFile ~/.ssh/id_old'']"

definition exFoldedAfter :: ConfigFile where
  "exFoldedAfter = exCfg
     [''Host work'', ''  IdentityFile ~/.ssh/id_work'',
      ''  #IdentityFile ~/.ssh/id_old'']"

definition exBlankLine :: ConfigFile where
  "exBlankLine = exCfg [''Host a'', ''  '', TAB # ''User git'']"

definition exGlob :: ConfigFile where
  "exGlob = exCfg [''Host *.corp'', ''    IdentityFile ~/.ssh/id_corp'']"

section \<open>The model on sample inputs\<close>

text \<open>
  The patterns, the trimming, the path normalization and the line scanner on lines and
  texts whose results are known from the Go functions, and the five scenarios the
  specification lists.
\<close>

lemma hostPattern_samples:
  "hostPattern ''Host work'' = Some ''work''"
  "hostPattern ''  hOST   *.corp  '' = Some ''*.corp''"
  "hostPattern ''Host a b'' = Some ''a b''"
  "hostPattern ''Hostname example.org'' = None"
  "hostPattern ''# Host work'' = None"
  "hostPattern ''Host'' = None"
  "hostPattern ''Host '' = None"
  "hostPattern ''Host  '' = Some '' ''"
  "hostPattern (''Host'' @ [CR, CR]) = Some [CR]"
  "hostPattern (''Host'' @ [CR]) = None"
  "hostPattern (''Host a'' @ [NL] @ ''b'') = None"
  "hostPattern (''Ho'' @ [CHR 0xC5, CHR 0xBF] @ ''t x'') = Some ''x''"
  by code_simp+

lemma identityFilePattern_samples:
  "identityFilePattern ''    IdentityFile ~/.ssh/id_work'' = Some ([], ''~/.ssh/id_work'')"
  "identityFilePattern ''    # IdentityFile ~/.ssh/id_personal  ''
     = Some (''# '', ''~/.ssh/id_personal'')"
  "identityFilePattern ''#identityfile   a b '' = Some (''#'', ''a b'')"
  "identityFilePattern ''IdentityFile'' = None"
  "identityFilePattern ''IdentityFile '' = None"
  "identityFilePattern ''IdentityFile  '' = Some ([], '' '')"
  "identityFilePattern ''IdentitiesOnly yes'' = None"
  "identityFilePattern ''## IdentityFile k'' = None"
  "identityFilePattern (''IdentityFile k'' @ [NL] @ ''Host b'') = None"
  "identityFilePattern (''IdentityFile k'' @ [CR]) = Some ([], ''k'')"
  by code_simp+

lemma TrimSpace_samples:
  "TrimSpace ''  a b  '' = ''a b''"
  "TrimSpace [TAB, CHR 0x0B, CHR ''x'', CR, NL] = ''x''"
  "TrimSpace '' '' = []"
  "TrimSpace ([CHR 0xC2, CHR 0xA0] @ ''x'' @ [CHR 0xE2, CHR 0x80, CHR 0x8A]) = ''x''"
  "TrimSpace [CHR 0xC2, CHR ''x''] = [CHR 0xC2, CHR ''x'']"
  by code_simp+

lemma normalizePath_samples:
  "normalizePath ''/home/u'' ''~/.ssh/id_work'' = ''/home/u/.ssh/id_work''"
  "normalizePath ''/home/u'' ''/home/u/.ssh/../.ssh/./id_work'' = ''/home/u/.ssh/id_work''"
  "normalizePath [] ''~/.ssh/id_work'' = ''~/.ssh/id_work''"
  "normalizePath ''/home/u'' ''keys//id/'' = ''keys/id''"
  "normalizePath ''/home/u'' ''a/../../b'' = ''../b''"
  "normalizePath ''/home/u'' ''/../b'' = ''/b''"
  "normalizePath ''/home/u'' [] = ''.''"
  "normalizePath ''/home/u'' ''~/'' = ''/home/u''"
  by code_simp+

lemma scanTokens_samples:
  "map dropCR (scanTokens [] (''a'' @ [NL] @ ''b'' @ [NL])) = [''a'', ''b'']"
  "map dropCR (scanTokens [] (''a'' @ [CR, NL, NL] @ ''b'')) = [''a'', [], ''b'']"
  "map dropCR (scanTokens [] (''a'' @ [CR, CR, NL])) = [''a'' @ [CR]]"
  "map dropCR (scanTokens [] []) = []"
  "map dropCR (scanTokens [] [NL]) = [[]]"
  by code_simp+

lemma scenario_activate:
  "ActivateKey exHome
     (exCfg [''Host work'', ''    IdentityFile ~/.ssh/id_work'',
             ''    # IdentityFile ~/.ssh/id_personal''])
     ''work'' ''~/.ssh/id_personal''
   = Some (None, exCfg [''Host work'', ''    # IdentityFile ~/.ssh/id_work'',
                        ''    IdentityFile ~/.ssh/id_personal''])"
  by code_simp

lemma scenario_unknown_host:
  "ActivateKey exHome exWork ''ghost'' ''~/.ssh/id_work''
   = Some (Some (NoHostBlock ''ghost''), exWork)"
  by code_simp

lemma scenario_add_inactive:
  "AddIdentityFile exHome (exCfg [''Host work'', ''  IdentityFile ~/.ssh/id_work'', ''  User git''])
     ''work'' ''~/.ssh/id_new'' False
   = Some (None, exCfg [''Host work'', ''  IdentityFile ~/.ssh/id_work'',
                        ''  # IdentityFile ~/.ssh/id_new'', ''  User git''])"
  by code_simp

lemma scenario_no_host:
  "Blocks (exCfg [''# only a comment'', ''IdentityFile ~/.ssh/id_work'']) = []"
  "GetActiveIdentityFile (exCfg [''# only a comment'', ''IdentityFile ~/.ssh/id_work'']) ''work''
   = []"
  by code_simp+

lemma scenario_first_save:
  "fst (Save exWork exFS) = None"
  "files (snd (Save exWork exFS)) ''/home/u/.ssh/config'' = Some (saveContent exWork)"
  "files (snd (Save exWork exFS)) ''/home/u/.ssh/config.bak'' = None"
  by code_simp+

section \<open>The patterns on rewritten lines\<close>

lemma find_None_noLead: "find (\<lambda>e. prefix e s) spaceRunes = None \<longleftrightarrow> noLead s"
  by (auto simp: find_None_iff noLead_def)

lemma find_None_noTrail: "find (\<lambda>e. suffix e s) spaceRunes = None \<longleftrightarrow> noTrail s"
  by (auto simp: find_None_iff noTrail_def)

lemma trimLeftSpace_noLead: "noLead (trimLeftSpace s)"
proof (induction s rule: trimLeftSpace.induct)
  case (1 s)
  show ?case
  proof (cases "find (\<lambda>e. prefix e s) spaceRunes")
    case None
    then have "trimLeftSpace s = s" by (subst trimLeftSpace.simps) simp
    then show ?thesis using None by (simp add: find_None_noLead)
  next
    case (Some e)
    then show ?thesis using 1[OF Some] by (subst trimLeftSpace.simps) simp
  qed
qed

lemma trimRightSpace_noTrail: "noTrail (trimRightSpace s)"
proof (induction s rule: trimRightSpace.induct)
  case (1 s)
  show ?case
  proof (cases "find (\<lambda>e. suffix e s) spaceRunes")
    case None
    then have "trimRightSpace s = s" by (subst trimRightSpace.simps) simp
    then show ?thesis using None by (simp add: find_None_noTrail)
  next
    case (Some e)
    then show ?thesis using 1[OF Some] by (subst trimRightSpace.simps) simp
  qed
qed

lemma trimLeftSpace_suffix: "suffix (trimLeftSpace s) s"
proof (induction s rule: trimLeftSpace.induct)
  case (1 s)
  show ?case
  proof (cases "find (\<lambda>e. prefix e s) spaceRunes")
    case None
    then show ?thesis by (subst trimLeftSpace.simps) simp
  next
    case (Some e)
    have "suffix (drop (length e) s) s" by (rule suffix_drop)
    with 1[OF Some] have "suffix (trimLeftSpace (drop (length e) s)) s"
      by (rule suffix_order.trans)
    then show ?thesis using Some by (subst trimLeftSpace.simps) simp
  qed
qed

lemma trimRightSpace_prefix: "prefix (trimRightSpace s) s"
proof (induction s rule: trimRightSpace.induct)
  case (1 s)
  show ?case
  proof (cases "find (\<lambda>e. suffix e s) spaceRunes")
    case None
    then show ?thesis by (subst trimRightSpace.simps) simp
  next
    case (Some e)
    have "prefix (take (length s - length e) s) s" by (rule take_is_prefix)
    with 1[OF Some] have "prefix (trimRightSpace (take (length s - length e) s)) s"
      by (rule prefix_order.trans)
    then show ?thesis using Some by (subst trimRightSpace.simps) simp
  qed
qed

lemma trimLeftSpace_id: "noLead s \<Longrightarrow> trimLeftSpace s = s"
  by (subst trimLeftSpace.simps) (simp add: find_None_noLead[symmetric])

lemma trimRightSpace_id: "noTrail s \<Longrightarrow> trimRightSpace s = s"
  by (subst trimRightSpace.simps) (simp add: find_None_noTrail[symmetric])

lemma noLead_prefix: "noLead s \<Longrightarrow> prefix t s \<Longrightarrow> noLead t"
  unfolding noLead_def using prefix_order.trans by blast

lemma TrimSpace_noLead: "noLead (TrimSpace s)"
  unfolding TrimSpace_def
  using noLead_prefix[OF trimLeftSpace_noLead trimRightSpace_prefix] .

lemma TrimSpace_noTrail: "noTrail (TrimSpace s)"
  unfolding TrimSpace_def by (rule trimRightSpace_noTrail)

lemma TrimSpace_fixed: "noLead s \<Longrightarrow> noTrail s \<Longrightarrow> TrimSpace s = s"
  by (simp add: TrimSpace_def trimLeftSpace_id trimRightSpace_id)

lemma TrimSpace_idem: "TrimSpace (TrimSpace s) = TrimSpace s"
  by (rule TrimSpace_fixed[OF TrimSpace_noLead TrimSpace_noTrail])

lemma TrimSpace_subset: "set (TrimSpace s) \<subseteq> set s"
proof -
  have "set (trimRightSpace (trimLeftSpace s)) \<subseteq> set (trimLeftSpace s)"
    using trimRightSpace_prefix by (rule set_mono_prefix)
  moreover have "set (trimLeftSpace s) \<subseteq> set s"
    using trimLeftSpace_suffix by (rule set_mono_suffix)
  ultimately show ?thesis by (simp add: TrimSpace_def)
qed

lemma isSpaceRE_rune: "isSpaceRE c \<Longrightarrow> [c] \<in> set spaceRunes"
  by (auto simp: isSpaceRE_def spaceRunes_def)

lemma noLead_hd: "noLead s \<Longrightarrow> s \<noteq> [] \<Longrightarrow> \<not> isSpaceRE (hd s)"
proof
  assume a: "noLead s" "s \<noteq> []" "isSpaceRE (hd s)"
  have "prefix [hd s] s" using a(2) by (cases s) simp_all
  with isSpaceRE_rune[OF a(3)] a(1) show False by (auto simp: noLead_def)
qed

lemma noTrail_last: "noTrail s \<Longrightarrow> s \<noteq> [] \<Longrightarrow> \<not> isSpaceRE (last s)"
proof
  assume a: "noTrail s" "s \<noteq> []" "isSpaceRE (last s)"
  have "suffix [last s] s" using a(2) by (metis append_butlast_last_id suffixI)
  with isSpaceRE_rune[OF a(3)] a(1) show False by (auto simp: noTrail_def)
qed

lemma isBlank_isSpaceRE: "isBlank c \<Longrightarrow> isSpaceRE c"
  by (auto simp: isBlank_def isSpaceRE_def)

lemma dropWhile_indent:
  assumes "\<forall>c \<in> set ind. isBlank c" "\<not> isSpaceRE x"
  shows "dropWhile isSpaceRE (ind @ x # xs) = x # xs"
  using assms by (simp add: dropWhile_append3 isBlank_isSpaceRE)

lemma lazyDot_all:
  "rest \<noteq> [] \<Longrightarrow> \<not> isSpaceRE (last rest) \<Longrightarrow> NL \<notin> set rest \<Longrightarrow>
   lazyDot acc rest = Some (acc @ rest)"
proof (induction rest arbitrary: acc)
  case Nil
  then show ?case by simp
next
  case (Cons c cs)
  show ?case
  proof (cases "cs = []")
    case True
    with Cons.prems show ?thesis by simp
  next
    case False
    with Cons.prems have l: "\<not> isSpaceRE (last cs)" "NL \<notin> set cs" "c \<noteq> NL" by auto
    have "last cs \<in> set cs" using False by simp
    with l(1) have "\<not> list_all isSpaceRE cs" by (auto simp: list_all_iff)
    with Cons.IH[OF False l(1) l(2)] l(3) show ?thesis by simp
  qed
qed

lemma lazyDot_no_NL:
  "lazyDot acc rest = Some m \<Longrightarrow> NL \<notin> set acc \<Longrightarrow> NL \<notin> set m"
  by (induction acc rest rule: lazyDot.induct) (auto split: if_splits)

lemma lazyDot_nonempty:
  "lazyDot acc rest = Some m \<Longrightarrow> acc \<noteq> [] \<Longrightarrow> m \<noteq> []"
  by (induction acc rest rule: lazyDot.induct) (auto split: if_splits)

lemma dotPlus_Some: "dotPlus s = Some m \<Longrightarrow> m \<noteq> [] \<and> NL \<notin> set m"
  unfolding dotPlus_def
  by (cases s) (auto split: if_splits dest: lazyDot_no_NL lazyDot_nonempty)

lemma greedyWs_Some: "greedyWs k r = Some m \<Longrightarrow> m \<noteq> [] \<and> NL \<notin> set m"
  by (induction k) (auto split: option.splits dest: dotPlus_Some)

lemma tailMatch_Some: "tailMatch r = Some m \<Longrightarrow> m \<noteq> [] \<and> NL \<notin> set m"
  unfolding tailMatch_def by (rule greedyWs_Some)

lemma tailMatch_path:
  assumes "p \<noteq> []" "\<not> isSpaceRE (hd p)" "\<not> isSpaceRE (last p)" "NL \<notin> set p"
  shows "tailMatch (CHR '' '' # p) = Some p"
proof -
  obtain x xs where p: "p = x # xs" using assms(1) by (cases p) auto
  have tw: "takeWhile isSpaceRE (CHR '' '' # p) = [CHR '' '']"
    using assms(2) by (simp add: p isSpaceRE_def)
  have "x \<noteq> NL" using assms(4) p by auto
  moreover have "lazyDot [x] xs = Some (x # xs)"
  proof (cases "xs = []")
    case True
    then show ?thesis by simp
  next
    case False
    then show ?thesis using lazyDot_all[of xs "[x]"] assms(3,4) p by simp
  qed
  ultimately have "dotPlus p = Some p" by (simp add: dotPlus_def p)
  then show ?thesis unfolding tailMatch_def tw by simp
qed

lemma tailMatch_single: "tailMatch [c] = None"
  by (cases "isSpaceRE c") (simp_all add: tailMatch_def dotPlus_def)

lemma tailMatch_Nil: "tailMatch [] = None"
  by (simp add: tailMatch_def)

lemma asciiLower_keyword:
  "asciiLower (CHR ''I'') = CHR ''i''" "asciiLower (CHR ''d'') = CHR ''d''"
  "asciiLower (CHR ''e'') = CHR ''e''" "asciiLower (CHR ''n'') = CHR ''n''"
  "asciiLower (CHR ''t'') = CHR ''t''" "asciiLower (CHR ''i'') = CHR ''i''"
  "asciiLower (CHR ''y'') = CHR ''y''" "asciiLower (CHR ''F'') = CHR ''f''"
  "asciiLower (CHR ''l'') = CHR ''l''" "asciiLower (CHR ''#'') = CHR ''#''"
  by code_simp+

lemma foldLit_host_I: "foldLit ''host'' (CHR ''I'' # xs) = None"
  by (simp add: asciiLower_keyword)

lemma foldLit_host_hash: "foldLit ''host'' (CHR ''#'' # xs) = None"
  by (simp add: asciiLower_keyword)

lemma foldLit_identityfile: "foldLit ''identityfile'' (''IdentityFile'' @ r) = Some r"
  by (simp add: asciiLower_keyword)

lemma not_host_rewritten:
  assumes "\<forall>c \<in> set ind. isBlank c"
  shows "hostPattern (ind @ ''IdentityFile '' @ p) = None"
    and "hostPattern (ind @ ''# IdentityFile '' @ p) = None"
proof -
  have a: "\<not> isSpaceRE (CHR ''I'')" "\<not> isSpaceRE (CHR ''#'')" by (simp_all add: isSpaceRE_def)
  have "dropWhile isSpaceRE (ind @ ''IdentityFile '' @ p) = ''IdentityFile '' @ p"
    using dropWhile_indent[OF assms a(1)] by simp
  then show "hostPattern (ind @ ''IdentityFile '' @ p) = None"
    by (simp add: hostPattern_def foldLit_host_I foldLit_host_hash del: foldLit.simps)
  have "dropWhile isSpaceRE (ind @ ''# IdentityFile '' @ p) = ''# IdentityFile '' @ p"
    using dropWhile_indent[OF assms a(2)] by simp
  then show "hostPattern (ind @ ''# IdentityFile '' @ p) = None"
    by (simp add: hostPattern_def foldLit_host_I foldLit_host_hash del: foldLit.simps)
qed

lemma ident_uncommented:
  assumes "\<forall>c \<in> set ind. isBlank c"
    and "p \<noteq> []" "\<not> isSpaceRE (hd p)" "\<not> isSpaceRE (last p)" "NL \<notin> set p"
  shows "identityFilePattern (ind @ ''IdentityFile '' @ p) = Some ([], p)"
proof -
  have a: "\<not> isSpaceRE (CHR ''I'')" by (simp add: isSpaceRE_def)
  have d: "dropWhile isSpaceRE (ind @ ''IdentityFile '' @ p) = ''IdentityFile '' @ p"
    using dropWhile_indent[OF assms(1) a] by simp
  have f: "foldLit ''identityfile'' (''IdentityFile '' @ p) = Some (CHR '' '' # p)"
    using foldLit_identityfile[of "CHR '' '' # p"] by simp
  show ?thesis
    unfolding identityFilePattern_def d
    using f tailMatch_path[OF assms(2-5)] by simp
qed

lemma ident_commented:
  assumes "\<forall>c \<in> set ind. isBlank c"
    and "p \<noteq> []" "\<not> isSpaceRE (hd p)" "\<not> isSpaceRE (last p)" "NL \<notin> set p"
  shows "identityFilePattern (ind @ ''# IdentityFile '' @ p) = Some (''# '', p)"
proof -
  have a: "\<not> isSpaceRE (CHR ''#'')" by (simp add: isSpaceRE_def)
  have d: "dropWhile isSpaceRE (ind @ ''# IdentityFile '' @ p) = ''# IdentityFile '' @ p"
    using dropWhile_indent[OF assms(1) a] by simp
  have f: "foldLit ''identityfile'' (''IdentityFile '' @ p) = Some (CHR '' '' # p)"
    using foldLit_identityfile[of "CHR '' '' # p"] by simp
  show ?thesis
    unfolding identityFilePattern_def d
    using f tailMatch_path[OF assms(2-5)] by (simp add: isSpaceRE_def)
qed

lemma ident_empty_path:
  assumes "\<forall>c \<in> set ind. isBlank c"
  shows "identityFilePattern (ind @ ''IdentityFile '') = None"
    and "identityFilePattern (ind @ ''# IdentityFile '') = None"
proof -
  have a: "\<not> isSpaceRE (CHR ''I'')" "\<not> isSpaceRE (CHR ''#'')" by (simp_all add: isSpaceRE_def)
  have d: "dropWhile isSpaceRE (ind @ ''IdentityFile '') = ''IdentityFile ''"
    using dropWhile_indent[OF assms a(1), of "''dentityFile ''"] by simp
  have f: "foldLit ''identityfile'' ''IdentityFile '' = Some '' ''"
    using foldLit_identityfile[of "'' ''"] by simp
  show "identityFilePattern (ind @ ''IdentityFile '') = None"
    unfolding identityFilePattern_def d using f by (simp add: tailMatch_single)
  have d2: "dropWhile isSpaceRE (ind @ ''# IdentityFile '') = ''# IdentityFile ''"
    using dropWhile_indent[OF assms a(2), of "'' IdentityFile ''"] by simp
  show "identityFilePattern (ind @ ''# IdentityFile '') = None"
    unfolding identityFilePattern_def d2 using f by (simp add: tailMatch_single isSpaceRE_def)
qed

lemma ident_commented_flag:
  assumes "\<forall>c \<in> set ind. isBlank c"
    and "identityFilePattern (ind @ ''# IdentityFile '' @ p) = Some (m1, m3)"
  shows "m1 \<noteq> []"
proof -
  have a: "\<not> isSpaceRE (CHR ''#'')" by (simp add: isSpaceRE_def)
  have d: "dropWhile isSpaceRE (ind @ ''# IdentityFile '' @ p) = ''# IdentityFile '' @ p"
    using dropWhile_indent[OF assms(1) a] by simp
  show ?thesis using assms(2)
    unfolding identityFilePattern_def d by (auto split: option.splits)
qed

section \<open>The parser on segments\<close>

lemma entriesFrom_append:
  "entriesFrom k (xs @ ys) = entriesFrom k xs @ entriesFrom (k + length xs) ys"
  by (induction xs arbitrary: k) (auto split: option.splits)

lemma parseLoop_body:
  "\<forall>l \<in> set body. \<not> isHost l \<Longrightarrow>
   parseLoop i (body @ rest) (Some b) bs =
   parseLoop (i + length body) rest
     (Some (b\<lparr>BLines := BLines b @ body,
              IdentityFiles := IdentityFiles b @ entriesFrom (length (BLines b)) body\<rparr>)) bs"
proof (induction body arbitrary: i b)
  case Nil
  then show ?case by simp
next
  case (Cons l body)
  have nh: "hostPattern l = None" using Cons.prems by (simp add: isHost_def)
  have rest: "\<forall>l \<in> set body. \<not> isHost l" using Cons.prems by simp
  have step: "addLine b l =
      b\<lparr>BLines := BLines b @ [l],
        IdentityFiles := IdentityFiles b @ entriesFrom (length (BLines b)) [l]\<rparr>"
    by (simp add: addLine_def split: option.splits)
  show ?case
    by (simp add: nh Cons.IH[OF rest] step split: option.splits)
qed

lemma parseLoop_preamble:
  "\<forall>l \<in> set pre. \<not> isHost l \<Longrightarrow>
   parseLoop i (pre @ rest) None bs = parseLoop (i + length pre) rest None bs"
  by (induction pre arbitrary: i) (auto simp: isHost_def)

lemma parseLoop_seg:
  assumes "validSeg s"
  shows "parseLoop i (s @ rest) cur bs =
         parseLoop (i + length s) rest (Some ((mkBlock i s)\<lparr>EndLine := 0\<rparr>))
           (bs @ closeBlock cur i)"
proof -
  from assms obtain h body where s: "s = h # body" and h: "isHost h"
    and body: "\<forall>l \<in> set body. \<not> isHost l"
    by (cases s) (auto simp: validSeg_def)
  from h obtain m where m: "hostPattern h = Some m" by (auto simp: isHost_def)
  show ?thesis
    by (simp add: s m parseLoop_body[OF body] mkBlock_def hostOf_def)
qed

lemma parseLoop_segs:
  "\<forall>s \<in> set ss. validSeg s \<Longrightarrow>
   (case parseLoop i (concat ss) cur bs of
      (cur', bs') \<Rightarrow> bs' @ closeBlock cur' (i + length (concat ss)))
   = bs @ closeBlock cur i @ mkBlocks i ss"
proof (induction ss arbitrary: i cur bs)
  case Nil
  then show ?case by simp
next
  case (Cons s ss)
  have v: "validSeg s" and vs: "\<forall>s \<in> set ss. validSeg s" using Cons.prems by simp_all
  have cl: "closeBlock (Some ((mkBlock i s)\<lparr>EndLine := 0\<rparr>)) (i + length s) = [mkBlock i s]"
    by (simp add: closeBlock_def mkBlock_def)
  show ?case
    using Cons.IH[OF vs, of "i + length s" "Some ((mkBlock i s)\<lparr>EndLine := 0\<rparr>)" "bs @ closeBlock cur i"]
    by (simp add: parseLoop_seg[OF v] cl add.assoc)
qed

lemma parseBlocks_segs:
  assumes "Lines c = pre @ concat ss" "\<forall>l \<in> set pre. \<not> isHost l" "\<forall>s \<in> set ss. validSeg s"
  shows "Blocks (parseBlocks c) = mkBlocks (length pre) ss"
proof -
  have "parseLoop 0 (Lines c) None [] = parseLoop (length pre) (concat ss) None []"
    using parseLoop_preamble[OF assms(2), of 0 "concat ss" "[]"] by (simp add: assms(1))
  then show ?thesis
    using parseLoop_segs[OF assms(3), of "length pre" None "[]"]
    by (simp add: parseBlocks_def assms(1) closeBlock_def split: prod.splits)
qed

lemma segs_exist:
  "\<exists>pre ss. lines = pre @ concat ss \<and> (\<forall>l \<in> set pre. \<not> isHost l) \<and> (\<forall>s \<in> set ss. validSeg s)"
proof (induction lines)
  case Nil
  show ?case by (intro exI[of _ "[]"]) simp
next
  case (Cons l lines)
  then obtain pre ss where d: "lines = pre @ concat ss" "\<forall>l \<in> set pre. \<not> isHost l"
    "\<forall>s \<in> set ss. validSeg s" by blast
  show ?case
  proof (cases "isHost l")
    case True
    have "l # lines = [] @ concat ((l # pre) # ss)" using d(1) by simp
    moreover have "validSeg (l # pre)" using True d(2) by (simp add: validSeg_def)
    ultimately show ?thesis using d(3)
      by (intro exI[of _ "[]"] exI[of _ "(l # pre) # ss"]) simp
  next
    case False
    then show ?thesis using d
      by (intro exI[of _ "l # pre"] exI[of _ ss]) simp
  qed
qed

lemma findBlock_mkBlocks:
  "findBlock h (mkBlocks i ss) = Some b \<Longrightarrow>
   \<exists>ss1 s ss2. ss = ss1 @ s # ss2 \<and> b = mkBlock (i + length (concat ss1)) s \<and>
      (\<forall>x \<in> set ss1. hostOf x \<noteq> h) \<and> hostOf s = h"
proof (induction ss arbitrary: i)
  case Nil
  then show ?case by simp
next
  case (Cons s ss)
  show ?case
  proof (cases "hostOf s = h")
    case True
    with Cons.prems have "b = mkBlock i s" by (simp add: mkBlock_def)
    with True show ?thesis by (intro exI[of _ "[]"] exI[of _ s] exI[of _ ss]) simp
  next
    case False
    with Cons.prems have "findBlock h (mkBlocks (i + length s) ss) = Some b"
      by (simp add: mkBlock_def)
    from Cons.IH[OF this] obtain ss1 t ss2 where
      d: "ss = ss1 @ t # ss2" "b = mkBlock (i + length s + length (concat ss1)) t"
         "\<forall>x \<in> set ss1. hostOf x \<noteq> h" "hostOf t = h" by blast
    show ?thesis
      using d False by (intro exI[of _ "s # ss1"] exI[of _ t] exI[of _ ss2]) (simp add: add.assoc)
  qed
qed

lemma findBlock_mkBlocks_split:
  "\<forall>x \<in> set ss1. hostOf x \<noteq> h \<Longrightarrow> hostOf s = h \<Longrightarrow>
   findBlock h (mkBlocks i (ss1 @ s # ss2)) = Some (mkBlock (i + length (concat ss1)) s)"
  by (induction ss1 arbitrary: i) (auto simp: mkBlock_def add.assoc)

lemma parsed_decomp:
  assumes "parsed c" "FindHostBlock c hostname = Some b"
  shows "\<exists>front s post. decomp (Lines c) hostname front s post \<and> b = mkBlock (length front) s"
proof -
  obtain pre ss where d: "Lines c = pre @ concat ss" "\<forall>l \<in> set pre. \<not> isHost l"
    "\<forall>s \<in> set ss. validSeg s" using segs_exist by blast
  have "Blocks c = mkBlocks (length pre) ss"
    using assms(1) parseBlocks_segs[OF d] by (simp add: parsed_def)
  with assms(2) have "findBlock hostname (mkBlocks (length pre) ss) = Some b"
    by (simp add: FindHostBlock_def)
  from findBlock_mkBlocks[OF this] obtain ss1 s ss2 where
    s: "ss = ss1 @ s # ss2" "b = mkBlock (length pre + length (concat ss1)) s"
       "\<forall>x \<in> set ss1. hostOf x \<noteq> hostname" "hostOf s = hostname" by blast
  have "decomp (Lines c) hostname (pre @ concat ss1) s (concat ss2)"
    unfolding decomp_def using d s
    by (intro exI[of _ pre] exI[of _ ss1] exI[of _ ss2]) auto
  then show ?thesis using s(2) by (intro exI[of _ "pre @ concat ss1"] exI[of _ s] exI[of _ "concat ss2"]) simp
qed

lemma decomp_parse:
  assumes "decomp lines hostname front s post" "Lines c = lines"
  shows "FindHostBlock (parseBlocks c) hostname = Some (mkBlock (length front) s)"
proof -
  from assms(1) obtain pre ss1 ss2 where
    d: "front = pre @ concat ss1" "post = concat ss2" "lines = front @ s @ post"
       "\<forall>l \<in> set pre. \<not> isHost l" "\<forall>x \<in> set ss1. validSeg x \<and> hostOf x \<noteq> hostname"
       "validSeg s" "hostOf s = hostname" "\<forall>x \<in> set ss2. validSeg x"
    unfolding decomp_def by blast
  have l: "Lines c = pre @ concat (ss1 @ s # ss2)" using d(1-3) assms(2) by simp
  have v: "\<forall>x \<in> set (ss1 @ s # ss2). validSeg x" using d(5,6,8) by auto
  have "Blocks (parseBlocks c) = mkBlocks (length pre) (ss1 @ s # ss2)"
    by (rule parseBlocks_segs[OF l d(4) v])
  then show ?thesis
    using findBlock_mkBlocks_split[of ss1 hostname s "length pre" ss2] d(1,5,7)
    by (simp add: FindHostBlock_def)
qed

lemma decomp_replace:
  assumes "decomp lines hostname front s post" "validSeg s'" "hd s' = hd s"
  shows "decomp (front @ s' @ post) hostname front s' post"
  using assms unfolding decomp_def hostOf_def by metis

lemma decomp_lines: "decomp lines hostname front s post \<Longrightarrow> lines = front @ s @ post"
  by (auto simp: decomp_def)

lemma decomp_valid: "decomp lines hostname front s post \<Longrightarrow> validSeg s"
  by (auto simp: decomp_def)

section \<open>\<open>ActivateKey\<close> on a parsed configuration\<close>

lemma rewriteLine_not_ident: "identityFilePattern l = None \<Longrightarrow> rewriteLine HOME nk l = l"
  by (simp add: rewriteLine_def)

lemma activateLoop_map:
  "length front = start + k \<Longrightarrow>
   activateLoop HOME nk start (entriesFrom k body) (front @ body @ post)
     = Some (front @ map (rewriteLine HOME nk) body @ post)"
proof (induction body arbitrary: k front)
  case Nil
  then show ?case by simp
next
  case (Cons l body)
  have len: "length (front @ [x]) = start + Suc k" for x using Cons.prems by simp
  show ?case
  proof (cases "identityFilePattern l")
    case None
    then show ?thesis
      using Cons.IH[OF len, of l] by (simp add: rewriteLine_def)
  next
    case (Some m)
    obtain m1 m3 where m: "m = (m1, m3)" by (cases m)
    have nth: "(front @ l # body @ post) ! (start + k) = l"
      using Cons.prems by (metis nth_append_length)
    have upd: "(front @ l # body @ post)[start + k := x] = (front @ [x]) @ body @ post" for x
      using Cons.prems by (metis append.assoc append_Cons append_Nil list_update_length)
    have lt: "start + k < length (front @ l # body @ post)" using Cons.prems by simp
    show ?thesis
      using Cons.IH[OF len] Some m lt
      by (simp add: nth upd rewriteLine_def Let_def del: list_update.simps)
  qed
qed

lemma identityFilePattern_capture:
  "identityFilePattern l = Some (m1, m3) \<Longrightarrow> m3 \<noteq> [] \<and> NL \<notin> set m3"
  unfolding identityFilePattern_def Let_def
  by (auto split: option.splits prod.splits dest: tailMatch_Some)

lemma takeWhile_isBlank_all: "\<forall>c \<in> set (takeWhile isBlank l). isBlank c"
  by (auto dest: set_takeWhileD)

lemma path_facts:
  assumes "identityFilePattern l = Some (m1, m3)" "TrimSpace m3 \<noteq> []"
  shows "\<not> isSpaceRE (hd (TrimSpace m3))" "\<not> isSpaceRE (last (TrimSpace m3))"
    "NL \<notin> set (TrimSpace m3)"
proof -
  show "\<not> isSpaceRE (hd (TrimSpace m3))"
    using noLead_hd[OF TrimSpace_noLead assms(2)] .
  show "\<not> isSpaceRE (last (TrimSpace m3))"
    using noTrail_last[OF TrimSpace_noTrail assms(2)] .
  show "NL \<notin> set (TrimSpace m3)"
    using identityFilePattern_capture[OF assms(1)] TrimSpace_subset[of m3] by blast
qed

lemma uncomment_reparse:
  assumes "identityFilePattern l = Some (m1, m3)" "TrimSpace m3 \<noteq> []"
  shows "identityFilePattern (uncommentIdentityFile l) = Some ([], TrimSpace m3)"
  using ident_uncommented[OF takeWhile_isBlank_all assms(2) path_facts[OF assms]]
  by (simp add: uncommentIdentityFile_def assms(1))

lemma uncomment_reparse_empty:
  assumes "identityFilePattern l = Some (m1, m3)" "TrimSpace m3 = []"
  shows "identityFilePattern (uncommentIdentityFile l) = None"
  using ident_empty_path(1)[OF takeWhile_isBlank_all]
  by (simp add: uncommentIdentityFile_def assms)

lemma comment_reparse:
  assumes "identityFilePattern l = Some ([], m3)" "TrimSpace m3 \<noteq> []"
  shows "identityFilePattern (commentIdentityFile l) = Some (''# '', TrimSpace m3)"
  using ident_commented[OF takeWhile_isBlank_all assms(2) path_facts[OF assms]]
  by (simp add: commentIdentityFile_def assms(1))

lemma comment_reparse_empty:
  assumes "identityFilePattern l = Some ([], m3)" "TrimSpace m3 = []"
  shows "identityFilePattern (commentIdentityFile l) = None"
  using ident_empty_path(2)[OF takeWhile_isBlank_all]
  by (simp add: commentIdentityFile_def assms)

lemma comment_commented:
  "identityFilePattern l = Some (m1, m3) \<Longrightarrow> m1 \<noteq> [] \<Longrightarrow> commentIdentityFile l = l"
  by (simp add: commentIdentityFile_def)

lemma entriesFrom_rewrite_line:
  "entriesFrom k [rewriteLine HOME nk l] =
   map (updEntry HOME nk) (filter (keepEntry HOME nk) (entriesFrom k [l]))"
proof (cases "identityFilePattern l")
  case None
  then show ?thesis by (simp add: rewriteLine_def)
next
  case (Some m)
  obtain m1 m3 where m: "identityFilePattern l = Some (m1, m3)" using Some by (cases m) simp
  show ?thesis
  proof (cases "normalizePath HOME (TrimSpace m3) = nk")
    case True
    then have rw: "rewriteLine HOME nk l = uncommentIdentityFile l"
      by (simp add: rewriteLine_def m)
    show ?thesis
    proof (cases "TrimSpace m3 = []")
      case e: True
      show ?thesis
        using uncomment_reparse_empty[OF m e] True e
        by (simp add: rw m keepEntry_def)
    next
      case ne: False
      show ?thesis
        using uncomment_reparse[OF m ne] True ne
        by (simp add: rw m keepEntry_def updEntry_def TrimSpace_idem rewriteLine_def)
    qed
  next
    case False
    then have rw: "rewriteLine HOME nk l = commentIdentityFile l"
      by (simp add: rewriteLine_def m)
    show ?thesis
    proof (cases "m1 = []")
      case c: False
      show ?thesis
        using comment_commented[OF m c] False c
        by (simp add: rw m keepEntry_def updEntry_def rewriteLine_def)
    next
      case u: True
      have m': "identityFilePattern l = Some ([], m3)" using m u by simp
      show ?thesis
      proof (cases "TrimSpace m3 = []")
        case e: True
        show ?thesis
          using comment_reparse_empty[OF m' e] False e
          by (simp add: rw m' keepEntry_def)
      next
        case ne: False
        show ?thesis
          using comment_reparse[OF m' ne] False ne
          by (simp add: rw m' keepEntry_def updEntry_def TrimSpace_idem rewriteLine_def)
      qed
    qed
  qed
qed

lemma entriesFrom_Cons: "entriesFrom k (l # ls) = entriesFrom k [l] @ entriesFrom (Suc k) ls"
  using entriesFrom_append[of k "[l]" ls] by simp

lemma entriesFrom_rewrite:
  "entriesFrom k (map (rewriteLine HOME nk) body) =
   map (updEntry HOME nk) (filter (keepEntry HOME nk) (entriesFrom k body))"
proof (induction body arbitrary: k)
  case Nil
  then show ?case by simp
next
  case (Cons l body)
  have "entriesFrom k (map (rewriteLine HOME nk) (l # body)) =
        entriesFrom k [rewriteLine HOME nk l]
          @ entriesFrom (Suc k) (map (rewriteLine HOME nk) body)"
    by (simp only: list.map entriesFrom_Cons[of k "rewriteLine HOME nk l" "map (rewriteLine HOME nk) body"])
  also have "\<dots> = map (updEntry HOME nk) (filter (keepEntry HOME nk) (entriesFrom k [l]))
          @ map (updEntry HOME nk) (filter (keepEntry HOME nk) (entriesFrom (Suc k) body))"
    by (simp only: entriesFrom_rewrite_line Cons.IH)
  also have "\<dots> = map (updEntry HOME nk) (filter (keepEntry HOME nk) (entriesFrom k (l # body)))"
    by (simp only: entriesFrom_Cons[of k l body] filter_append map_append)
  finally show ?case .
qed

lemma rewriteLine_not_host: "\<not> isHost l \<Longrightarrow> \<not> isHost (rewriteLine HOME nk l)"
  using not_host_rewritten[OF takeWhile_isBlank_all, of l]
  by (auto simp: rewriteLine_def isHost_def uncommentIdentityFile_def commentIdentityFile_def
           split: option.splits)

lemma keyInBlock_iff:
  "keyInBlock HOME nk es \<longleftrightarrow> (\<exists>e \<in> set es. normalizePath HOME (Path e) = nk)"
  by (induction es) auto

lemma entriesFrom_mem:
  "e \<in> set (entriesFrom k body) \<Longrightarrow>
   k \<le> LineIndex e \<and> LineIndex e < k + length body \<and> FullLine e = body ! (LineIndex e - k) \<and>
   (\<exists>m1 m3. identityFilePattern (FullLine e) = Some (m1, m3) \<and> Path e = TrimSpace m3 \<and>
      IsCommented e = (m1 \<noteq> []))"
proof (induction body arbitrary: k)
  case Nil
  then show ?case by simp
next
  case (Cons l body)
  show ?case
  proof (cases "e \<in> set (entriesFrom (Suc k) body)")
    case True
    from Cons.IH[OF True] show ?thesis by (auto simp: Suc_diff_le)
  next
    case False
    with Cons.prems show ?thesis by (auto split: option.splits)
  qed
qed

lemma mkBlock_simps [simp]:
  "StartLine (mkBlock i s) = i" "EndLine (mkBlock i s) = i + length s"
  "Hostname (mkBlock i s) = hostOf s" "BLines (mkBlock i s) = s"
  "IdentityFiles (mkBlock i s) = entriesFrom 1 (tl s)"
  by (simp_all add: mkBlock_def)

lemma validSeg_split: "validSeg s \<Longrightarrow> s = hd s # tl s"
  by (simp add: validSeg_def)

lemma validSeg_rewrite:
  assumes "validSeg s"
  shows "validSeg (hd s # map (rewriteLine HOME nk) (tl s))"
  using assms by (auto simp: validSeg_def rewriteLine_not_host)

lemma ActivateKey_rewrites:
  assumes d: "decomp (Lines c) hostname front s post"
    and f: "FindHostBlock c hostname = Some (mkBlock (length front) s)"
    and k: "keyInBlock HOME (normalizePath HOME keyPath) (entriesFrom 1 (tl s))"
  shows "ActivateKey HOME c hostname keyPath =
         Some (None, parseBlocks (c\<lparr>Lines :=
           front @ hd s # map (rewriteLine HOME (normalizePath HOME keyPath)) (tl s) @ post\<rparr>))"
proof -
  have s: "s = hd s # tl s" using decomp_valid[OF d] by (rule validSeg_split)
  have l: "Lines c = (front @ [hd s]) @ tl s @ post"
    using decomp_lines[OF d] s by (metis append.assoc append_Cons append_Nil)
  have "activateLoop HOME (normalizePath HOME keyPath) (length front) (entriesFrom 1 (tl s))
          ((front @ [hd s]) @ tl s @ post)
        = Some ((front @ [hd s]) @ map (rewriteLine HOME (normalizePath HOME keyPath)) (tl s) @ post)"
    by (rule activateLoop_map) simp
  then show ?thesis
    unfolding ActivateKey_def f l using k by simp
qed

lemma ActivateKey_parsed:
  assumes p: "parsed c" and f: "FindHostBlock c hostname = Some b"
    and a: "ActivateKey HOME c hostname keyPath = Some (None, c')"
  shows "\<exists>front s post.
           decomp (Lines c) hostname front s post \<and> b = mkBlock (length front) s \<and>
           keyInBlock HOME (normalizePath HOME keyPath) (entriesFrom 1 (tl s)) \<and>
           c' = parseBlocks (c\<lparr>Lines :=
             front @ hd s # map (rewriteLine HOME (normalizePath HOME keyPath)) (tl s) @ post\<rparr>) \<and>
           FindHostBlock c' hostname =
             Some (mkBlock (length front)
                    (hd s # map (rewriteLine HOME (normalizePath HOME keyPath)) (tl s)))"
proof -
  let ?nk = "normalizePath HOME keyPath"
  from parsed_decomp[OF p f] obtain front s post where
    d: "decomp (Lines c) hostname front s post" and b: "b = mkBlock (length front) s" by blast
  have k: "keyInBlock HOME ?nk (entriesFrom 1 (tl s))"
    using a f b unfolding ActivateKey_def by (auto simp: Let_def split: if_splits)
  let ?s' = "hd s # map (rewriteLine HOME ?nk) (tl s)"
  let ?c1 = "c\<lparr>Lines := front @ ?s' @ post\<rparr>"
  have r: "ActivateKey HOME c hostname keyPath = Some (None, parseBlocks ?c1)"
    using ActivateKey_rewrites[OF d f[unfolded b] k] by simp
  have c': "c' = parseBlocks ?c1" using a r by simp
  have v: "validSeg ?s'" using validSeg_rewrite[OF decomp_valid[OF d]] .
  have "hd ?s' = hd s" by simp
  from decomp_replace[OF d v this]
  have "FindHostBlock (parseBlocks ?c1) hostname = Some (mkBlock (length front) ?s')"
    by (rule decomp_parse) simp
  with d b k c' show ?thesis by auto
qed

lemma firstActive_mem:
  "\<exists>e \<in> set es. \<not> IsCommented e \<Longrightarrow>
   \<exists>e \<in> set es. \<not> IsCommented e \<and> firstActive es = Path e"
  by (induction es) auto

lemma updEntry_simps [simp]:
  "Path (updEntry HOME nk e) = Path e"
  "LineIndex (updEntry HOME nk e) = LineIndex e"
  "IsCommented (updEntry HOME nk e) = (normalizePath HOME (Path e) \<noteq> nk)"
  "FullLine (updEntry HOME nk e) = rewriteLine HOME nk (FullLine e)"
  by (simp_all add: updEntry_def)

lemma rewritten_flags:
  "\<forall>e' \<in> set (map (updEntry HOME nk) (filter (keepEntry HOME nk) es)).
     (\<not> IsCommented e') = (normalizePath HOME (Path e') = nk)"
  by auto

lemma rewritten_count:
  assumes "\<forall>e \<in> set es. normalizePath HOME (Path e) = nk \<longrightarrow> Path e \<noteq> []"
  shows "filter (\<lambda>e. \<not> IsCommented e) (map (updEntry HOME nk) (filter (keepEntry HOME nk) es))
         = map (updEntry HOME nk) (filter (\<lambda>e. normalizePath HOME (Path e) = nk) es)"
proof -
  have "filter (\<lambda>e. \<not> IsCommented e) (map (updEntry HOME nk) (filter (keepEntry HOME nk) es))
        = map (updEntry HOME nk)
            (filter (\<lambda>e. normalizePath HOME (Path e) = nk \<and> keepEntry HOME nk e) es)"
    by (simp add: filter_map o_def conj_commute)
  also have "filter (\<lambda>e. normalizePath HOME (Path e) = nk \<and> keepEntry HOME nk e) es
        = filter (\<lambda>e. normalizePath HOME (Path e) = nk) es"
    using assms by (intro filter_cong) (auto simp: keepEntry_def)
  finally show ?thesis .
qed

text \<open>
  Claim C1, amended. On a parsed configuration in which no entry of the block that
  matches \<open>keyPath\<close> has an empty path, a successful \<open>ActivateKey\<close> leaves the block
  found for the host name with these entries: an entry is uncommented exactly when its
  normalized path equals the normalized \<open>keyPath\<close>; there are as many uncommented
  entries as the block had matching entries before, at least one (exactly one when the
  key was listed once); and \<open>GetActiveIdentityFile\<close> returns a path whose
  normalization equals that of \<open>keyPath\<close>.
\<close>

theorem ActivateKey_activates_matching:
  assumes "parsed c"
    and "FindHostBlock c hostname = Some b"
    and "ActivateKey HOME c hostname keyPath = Some (None, c')"
    and "\<forall>e \<in> set (IdentityFiles b).
           normalizePath HOME (Path e) = normalizePath HOME keyPath \<longrightarrow> Path e \<noteq> []"
  shows "\<exists>b'. FindHostBlock c' hostname = Some b' \<and>
           (\<forall>e' \<in> set (IdentityFiles b').
              (\<not> IsCommented e') = (normalizePath HOME (Path e') = normalizePath HOME keyPath)) \<and>
           length (filter (\<lambda>e. \<not> IsCommented e) (IdentityFiles b'))
             = length (filter (\<lambda>e. normalizePath HOME (Path e) = normalizePath HOME keyPath)
                         (IdentityFiles b)) \<and>
           0 < length (filter (\<lambda>e. \<not> IsCommented e) (IdentityFiles b')) \<and>
           normalizePath HOME (GetActiveIdentityFile c' hostname) = normalizePath HOME keyPath"
proof -
  let ?nk = "normalizePath HOME keyPath"
  from ActivateKey_parsed[OF assms(1-3)] obtain front s post where
    d: "decomp (Lines c) hostname front s post"
    and b: "b = mkBlock (length front) s"
    and k: "keyInBlock HOME ?nk (entriesFrom 1 (tl s))"
    and c': "c' = parseBlocks (c\<lparr>Lines :=
               front @ hd s # map (rewriteLine HOME ?nk) (tl s) @ post\<rparr>)"
    and f: "FindHostBlock c' hostname =
              Some (mkBlock (length front) (hd s # map (rewriteLine HOME ?nk) (tl s)))"
    by (elim exE conjE)
  let ?es = "entriesFrom 1 (tl s)"
  let ?b' = "mkBlock (length front) (hd s # map (rewriteLine HOME ?nk) (tl s))"
  have es: "IdentityFiles b = ?es" by (simp add: b)
  have es': "IdentityFiles ?b' = map (updEntry HOME ?nk) (filter (keepEntry HOME ?nk) ?es)"
    by (simp add: entriesFrom_rewrite)
  have h: "\<forall>e \<in> set ?es. normalizePath HOME (Path e) = ?nk \<longrightarrow> Path e \<noteq> []"
    using assms(4) es by simp
  have flags: "\<forall>e' \<in> set (IdentityFiles ?b').
      (\<not> IsCommented e') = (normalizePath HOME (Path e') = ?nk)"
    unfolding es' by (rule rewritten_flags)
  have act: "filter (\<lambda>e. \<not> IsCommented e) (IdentityFiles ?b')
      = map (updEntry HOME ?nk) (filter (\<lambda>e. normalizePath HOME (Path e) = ?nk) ?es)"
    unfolding es' by (rule rewritten_count[OF h])
  have cnt: "length (filter (\<lambda>e. \<not> IsCommented e) (IdentityFiles ?b'))
      = length (filter (\<lambda>e. normalizePath HOME (Path e) = ?nk) (IdentityFiles b))"
    by (simp only: act es length_map)
  from k obtain e where e: "e \<in> set ?es" "normalizePath HOME (Path e) = ?nk"
    by (auto simp: keyInBlock_iff)
  then have "filter (\<lambda>e. normalizePath HOME (Path e) = ?nk) ?es \<noteq> []"
    by (auto simp: filter_empty_conv)
  then have pos: "0 < length (filter (\<lambda>e. \<not> IsCommented e) (IdentityFiles ?b'))"
    by (simp only: act length_map length_greater_0_conv not_False_eq_True)
  then have "\<exists>e' \<in> set (IdentityFiles ?b'). \<not> IsCommented e'"
    by (metis filter_False length_0_conv less_numeral_extra(3))
  from firstActive_mem[OF this] obtain e' where
    e': "e' \<in> set (IdentityFiles ?b')" "\<not> IsCommented e'"
        "firstActive (IdentityFiles ?b') = Path e'" by blast
  have "normalizePath HOME (Path e') = ?nk" using flags e'(1,2) by blast
  then have ga: "normalizePath HOME (GetActiveIdentityFile c' hostname) = ?nk"
    using e'(3) by (simp add: GetActiveIdentityFile_def f)
  show ?thesis
    using f flags cnt pos ga by (intro exI[of _ ?b']) simp
qed

theorem ActivateKey_activates_matching_witness:
  "parsed exWork \<and>
   ActivateKey exHome exWork ''work'' ''~/.ssh/id_personal'' = Some (None, exWorkAfter) \<and>
   normalizePath exHome (GetActiveIdentityFile exWorkAfter ''work'')
     = normalizePath exHome ''~/.ssh/id_personal'' \<and>
   GetActiveIdentityFile exWorkAfter ''work'' = ''~/.ssh/id_personal''"
proof -
  have h1: "parsed exWork" by code_simp
  have h2: "FindHostBlock exWork ''work'' = Some (the (FindHostBlock exWork ''work''))"
    by code_simp
  have h3: "ActivateKey exHome exWork ''work'' ''~/.ssh/id_personal'' = Some (None, exWorkAfter)"
    by code_simp
  have h4: "\<forall>e \<in> set (IdentityFiles (the (FindHostBlock exWork ''work''))).
      normalizePath exHome (Path e) = normalizePath exHome ''~/.ssh/id_personal''
        \<longrightarrow> Path e \<noteq> []"
    by code_simp
  have "GetActiveIdentityFile exWorkAfter ''work'' = ''~/.ssh/id_personal''" by code_simp
  with ActivateKey_activates_matching[OF h1 h2 h3 h4] h1 h3 show ?thesis by blast
qed

text \<open>
  Claim C1 as stated fails: a key listed twice in the block is uncommented twice, and
  a matching entry with an empty path is rewritten to a line that is no entry at all.
\<close>

theorem ActivateKey_exactly_one_counterexample:
  "ActivateKey exHome exDup ''work'' ''~/.ssh/id_work'' = Some (None, exDupAfter) \<and>
   map_option (\<lambda>b. map IsCommented (IdentityFiles b)) (FindHostBlock exDupAfter ''work'')
     = Some [False, False] \<and>
   ActivateKey exHome exEmpty ''a'' [] = Some (None, exEmptyAfter) \<and>
   map_option IdentityFiles (FindHostBlock exEmptyAfter ''a'') = Some []"
  by code_simp

section \<open>\<open>AddIdentityFile\<close> on a parsed configuration\<close>

lemma take_minus_dropWhile: "take (length l - length (dropWhile P l)) l = takeWhile P l"
proof -
  have "length (takeWhile P l) + length (dropWhile P l) = length l"
    by (metis length_append takeWhile_dropWhile_id)
  then have "length l - length (dropWhile P l) = length (takeWhile P l)" by simp
  then show ?thesis by (simp add: takeWhile_eq_take[symmetric])
qed

lemma scanIndent_find:
  "scanIndent ls =
     (case find (\<lambda>l. TrimLeft l \<noteq> [] \<and> TrimLeft l \<noteq> l) ls of
        None \<Rightarrow> ''    ''
      | Some l \<Rightarrow> takeWhile isBlank l)"
  by (induction ls) (auto simp: Let_def TrimLeft_def take_minus_dropWhile)

lemma scanIndent_blank: "\<forall>c \<in> set (scanIndent ls). isBlank c"
proof (cases "find (\<lambda>l. TrimLeft l \<noteq> [] \<and> TrimLeft l \<noteq> l) ls")
  case None
  then show ?thesis by (simp add: scanIndent_find isBlank_def)
next
  case (Some l)
  then show ?thesis using takeWhile_isBlank_all[of l] by (simp add: scanIndent_find)
qed

lemma newLine_not_host: "\<not> isHost (newLine s keyPath active)"
  using not_host_rewritten[OF scanIndent_blank, of "tl s" keyPath]
  by (simp add: newLine_def isHost_def)

lemma entriesFrom_last_bound:
  "e \<in> set (entriesFrom k body) \<Longrightarrow> LineIndex e \<le> LineIndex (last (entriesFrom k body))"
proof (induction body arbitrary: k)
  case Nil
  then show ?case by simp
next
  case (Cons l body)
  show ?case
  proof (cases "entriesFrom (Suc k) body = []")
    case True
    with Cons.prems show ?thesis by (auto split: option.splits)
  next
    case False
    then have lst: "last (entriesFrom k (l # body)) = last (entriesFrom (Suc k) body)"
      by (auto split: option.splits)
    show ?thesis
    proof (cases "e \<in> set (entriesFrom (Suc k) body)")
      case True
      from Cons.IH[OF this] show ?thesis by (simp only: lst)
    next
      case nin: False
      with Cons.prems have "LineIndex e = k" by (auto split: option.splits)
      moreover have "last (entriesFrom (Suc k) body) \<in> set (entriesFrom (Suc k) body)"
        using False by simp
      from entriesFrom_mem[OF this] have "Suc k \<le> LineIndex (last (entriesFrom (Suc k) body))"
        by simp
      ultimately show ?thesis by (simp only: lst)
    qed
  qed
qed

lemma entriesFrom_has:
  "j < length body \<Longrightarrow> identityFilePattern (body ! j) = Some (m1, m3) \<Longrightarrow>
   \<exists>e \<in> set (entriesFrom k body). LineIndex e = k + j \<and> Path e = TrimSpace m3
      \<and> IsCommented e = (m1 \<noteq> []) \<and> FullLine e = body ! j"
proof (induction body arbitrary: k j)
  case Nil
  then show ?case by simp
next
  case (Cons l body)
  show ?case
  proof (cases j)
    case 0
    with Cons.prems show ?thesis by simp
  next
    case (Suc j')
    with Cons.prems have "j' < length body" "identityFilePattern (body ! j') = Some (m1, m3)"
      by simp_all
    from Cons.IH[OF this, of "Suc k"] show ?thesis
      using Suc by (auto split: option.splits)
  qed
qed

lemma insertPos_bounds: "s \<noteq> [] \<Longrightarrow> 1 \<le> insertPos s \<and> insertPos s \<le> length s"
proof -
  assume s: "s \<noteq> []"
  show ?thesis
  proof (cases "entriesFrom 1 (tl s) = []")
    case True
    then show ?thesis using s by (cases s) (simp_all add: insertPos_def)
  next
    case False
    then have "last (entriesFrom 1 (tl s)) \<in> set (entriesFrom 1 (tl s))" by simp
    from entriesFrom_mem[OF this] have "LineIndex (last (entriesFrom 1 (tl s))) < 1 + length (tl s)"
      by simp
    then show ?thesis using s False by (cases s) (simp_all add: insertPos_def)
  qed
qed

lemma after_insertPos:
  assumes "insertPos s \<le> j" "j < length s"
  shows "identityFilePattern (s ! j) = None"
proof (rule ccontr)
  assume "identityFilePattern (s ! j) \<noteq> None"
  then obtain m1 m3 where m: "identityFilePattern (s ! j) = Some (m1, m3)" by auto
  have j: "1 \<le> j" using assms(1) by (simp add: insertPos_def split: if_splits)
  then obtain j' where j': "j = Suc j'" by (cases j) auto
  have s: "s \<noteq> []" using assms(2) by auto
  have a: "j' < length (tl s)" using assms(2) j' by simp
  have b: "tl s ! j' = s ! j" using j' s by (cases s) simp_all
  from entriesFrom_has[OF a, of m1 m3 1] m b obtain e where
    e: "e \<in> set (entriesFrom 1 (tl s))" "LineIndex e = 1 + j'" by auto
  then have "entriesFrom 1 (tl s) \<noteq> []" by auto
  moreover from entriesFrom_last_bound[OF e(1)] e(2)
  have "j \<le> LineIndex (last (entriesFrom 1 (tl s)))" using j' by simp
  ultimately show False using assms(1) by (simp add: insertPos_def)
qed

lemma validSeg_withLine:
  assumes "validSeg s"
  shows "validSeg (withLine s keyPath active)" "hd (withLine s keyPath active) = hd s"
proof -
  have s: "s \<noteq> []" using assms by (simp add: validSeg_def)
  from insertPos_bounds[OF s] obtain m where m: "insertPos s = Suc m" "Suc m \<le> length s"
    by (cases "insertPos s") auto
  obtain h body where hb: "s = h # body" using s by (cases s) auto
  have w: "withLine s keyPath active = h # take m body @ newLine s keyPath active # drop m body"
    using m by (simp add: withLine_def hb)
  show "hd (withLine s keyPath active) = hd s" unfolding w by (simp add: hb)
  have "\<forall>l \<in> set body. \<not> isHost l" "isHost h" using assms hb by (simp_all add: validSeg_def)
  then show "validSeg (withLine s keyPath active)"
    unfolding w validSeg_def using newLine_not_host[of s keyPath active]
    by (auto dest: in_set_takeD in_set_dropD)
qed

lemma AddIdentityFile_inserts:
  assumes d: "decomp (Lines c) hostname front s post"
    and f: "FindHostBlock c hostname = Some (mkBlock (length front) s)"
    and k: "\<not> keyInBlock HOME (normalizePath HOME keyPath) (entriesFrom 1 (tl s))"
  shows "AddIdentityFile HOME c hostname keyPath active =
         Some (None, parseBlocks (c\<lparr>Lines := front @ withLine s keyPath active @ post\<rparr>))"
proof -
  have v: "validSeg s" using decomp_valid[OF d] .
  then have s: "s \<noteq> []" by (simp add: validSeg_def)
  obtain h body where hb: "s = h # body" using s by (cases s) auto
  have l: "Lines c = front @ s @ post" using decomp_lines[OF d] .
  have b: "insertPos s \<le> length s" using insertPos_bounds[OF s] by simp
  have di: "detectIndent s = Some (scanIndent (tl s))" by (simp add: detectIndent_def hb)
  have idx: "(if entriesFrom 1 (tl s) \<noteq> []
              then length front + LineIndex (last (entriesFrom 1 (tl s))) + 1
              else length front + 1) = length front + insertPos s"
    by (simp add: insertPos_def)
  have tk: "take (length front + insertPos s) (front @ s @ post) = front @ take (insertPos s) s"
    using b by simp
  have dr: "drop (length front + insertPos s) (front @ s @ post) = drop (insertPos s) s @ post"
    using b by simp
  have nl: "(if active then scanIndent (tl s) @ ''IdentityFile '' @ keyPath
             else scanIndent (tl s) @ ''# IdentityFile '' @ keyPath) = newLine s keyPath active"
    by (simp add: newLine_def)
  have le: "length front + insertPos s \<le> length (front @ s @ post)" using b by simp
  have "AddIdentityFile HOME c hostname keyPath active =
        Some (None, parseBlocks (c\<lparr>Lines :=
          (front @ take (insertPos s) s) @ [newLine s keyPath active]
            @ drop (insertPos s) s @ post\<rparr>))"
    unfolding AddIdentityFile_def f l
    by (simp only: option.case mkBlock_simps Let_def k if_False di idx tk dr nl le if_True)
  then show ?thesis by (simp add: withLine_def)
qed

section \<open>Errors and the lines outside the block\<close>

lemma parseBlocks_Lines [simp]:
  "Lines (parseBlocks c) = Lines c" "CfgPath (parseBlocks c) = CfgPath c"
  by (simp_all add: parseBlocks_def split: prod.splits)

lemma parsed_parseBlocks [simp]: "parsed (parseBlocks c)"
  by (simp add: parsed_def parseBlocks_def split: prod.splits)

lemma findBlock_None: "findBlock h bs = None \<longleftrightarrow> (\<forall>b \<in> set bs. Hostname b \<noteq> h)"
  by (induction bs) auto

lemma findBlock_Some:
  "findBlock h bs = Some b \<Longrightarrow>
     \<exists>i < length bs. bs ! i = b \<and> Hostname b = h \<and> (\<forall>j < i. Hostname (bs ! j) \<noteq> h)"
proof (induction bs)
  case Nil
  then show ?case by simp
next
  case (Cons a bs)
  show ?case
  proof (cases "Hostname a = h")
    case True
    with Cons.prems have "a = b" by simp
    with True show ?thesis by (intro exI[of _ 0]) simp
  next
    case False
    with Cons.prems have "findBlock h bs = Some b" by simp
    from Cons.IH[OF this] obtain i where i: "i < length bs" "bs ! i = b" "Hostname b = h"
      "\<forall>j < i. Hostname (bs ! j) \<noteq> h" by blast
    have "\<forall>j < Suc i. Hostname ((a # bs) ! j) \<noteq> h"
      using False i(4) by (auto simp: less_Suc_eq_0_disj)
    with i show ?thesis by (intro exI[of _ "Suc i"]) simp
  qed
qed

lemma ActivateKey_error:
  "ActivateKey HOME c hostname keyPath = Some (Some e, c') \<Longrightarrow> isNotFound e \<and> c' = c"
  unfolding ActivateKey_def
  by (auto simp: Let_def split: option.splits if_splits)

lemma ActivateKey_error_iff:
  "(\<exists>e c'. ActivateKey HOME c hostname keyPath = Some (Some e, c')) \<longleftrightarrow>
   (FindHostBlock c hostname = None \<or>
    (\<exists>b. FindHostBlock c hostname = Some b \<and>
         \<not> keyInBlock HOME (normalizePath HOME keyPath) (IdentityFiles b)))"
  unfolding ActivateKey_def
  by (auto simp: Let_def split: option.splits if_splits)

lemma ActivateKey_returns:
  assumes "parsed c"
  shows "\<exists>r c'. ActivateKey HOME c hostname keyPath = Some (r, c')"
proof (cases "FindHostBlock c hostname")
  case None
  then show ?thesis by (simp add: ActivateKey_def)
next
  case (Some b)
  show ?thesis
  proof (cases "keyInBlock HOME (normalizePath HOME keyPath) (IdentityFiles b)")
    case False
    then show ?thesis using Some by (simp add: ActivateKey_def)
  next
    case True
    from parsed_decomp[OF assms Some] obtain front s post where
      d: "decomp (Lines c) hostname front s post" and b: "b = mkBlock (length front) s"
      by blast
    have k: "keyInBlock HOME (normalizePath HOME keyPath) (entriesFrom 1 (tl s))"
      using True b by simp
    show ?thesis using ActivateKey_rewrites[OF d Some[unfolded b] k] by blast
  qed
qed

lemma AddIdentityFile_parsed:
  assumes p: "parsed c" and f: "FindHostBlock c hostname = Some b"
    and a: "AddIdentityFile HOME c hostname keyPath active = Some (r, c')"
  shows "r = None \<and>
         ((keyInBlock HOME (normalizePath HOME keyPath) (IdentityFiles b) \<and> c' = c) \<or>
          (\<not> keyInBlock HOME (normalizePath HOME keyPath) (IdentityFiles b) \<and>
           (\<exists>front s post.
              decomp (Lines c) hostname front s post \<and> b = mkBlock (length front) s \<and>
              c' = parseBlocks (c\<lparr>Lines := front @ withLine s keyPath active @ post\<rparr>) \<and>
              FindHostBlock c' hostname
                = Some (mkBlock (length front) (withLine s keyPath active)))))"
proof (cases "keyInBlock HOME (normalizePath HOME keyPath) (IdentityFiles b)")
  case True
  then show ?thesis using a f by (simp add: AddIdentityFile_def)
next
  case False
  from parsed_decomp[OF p f] obtain front s post where
    d: "decomp (Lines c) hostname front s post" and b: "b = mkBlock (length front) s"
    by blast
  have k: "\<not> keyInBlock HOME (normalizePath HOME keyPath) (entriesFrom 1 (tl s))"
    using False b by simp
  let ?c1 = "c\<lparr>Lines := front @ withLine s keyPath active @ post\<rparr>"
  have r: "AddIdentityFile HOME c hostname keyPath active = Some (None, parseBlocks ?c1)"
    using AddIdentityFile_inserts[OF d f[unfolded b] k] .
  have v: "validSeg s" using decomp_valid[OF d] .
  from decomp_replace[OF d validSeg_withLine[OF v]]
  have "FindHostBlock (parseBlocks ?c1) hostname
          = Some (mkBlock (length front) (withLine s keyPath active))"
    by (rule decomp_parse) simp
  with a r d b False show ?thesis by auto
qed

lemma AddIdentityFile_no_block:
  "FindHostBlock c hostname = None \<Longrightarrow>
   AddIdentityFile HOME c hostname keyPath active = Some (Some (NoHostBlock hostname), c)"
  by (simp add: AddIdentityFile_def)

lemma ActivateKey_no_block:
  "FindHostBlock c hostname = None \<Longrightarrow>
   ActivateKey HOME c hostname keyPath = Some (Some (NoHostBlock hostname), c)"
  by (simp add: ActivateKey_def)

lemma length_withLine: "length (withLine s keyPath active) = Suc (length s)"
  by (simp add: withLine_def)

lemma ActivateKey_frame:
  assumes p: "parsed c" and f: "FindHostBlock c hostname = Some b"
    and a: "ActivateKey HOME c hostname keyPath = Some (r, c')"
  shows "length (Lines c') = length (Lines c) \<and>
         take (StartLine b) (Lines c') = take (StartLine b) (Lines c) \<and>
         drop (EndLine b) (Lines c') = drop (EndLine b) (Lines c)"
proof (cases r)
  case (Some e)
  with ActivateKey_error[of HOME c hostname keyPath e c'] a show ?thesis by simp
next
  case None
  from ActivateKey_parsed[OF p f a[unfolded None]] obtain front s post where
    d: "decomp (Lines c) hostname front s post"
    and b: "b = mkBlock (length front) s"
    and c': "c' = parseBlocks (c\<lparr>Lines := front @ hd s
               # map (rewriteLine HOME (normalizePath HOME keyPath)) (tl s) @ post\<rparr>)"
    by (elim exE conjE)
  obtain h body where s: "s = h # body"
    using validSeg_split[OF decomp_valid[OF d]] by blast
  have l: "Lines c = front @ s @ post" using decomp_lines[OF d] .
  show ?thesis unfolding c' b l by (simp add: s)
qed

lemma AddIdentityFile_frame:
  assumes p: "parsed c" and f: "FindHostBlock c hostname = Some b"
    and a: "AddIdentityFile HOME c hostname keyPath active = Some (r, c')"
  shows "length (Lines c) \<le> length (Lines c') \<and>
         take (StartLine b) (Lines c') = take (StartLine b) (Lines c) \<and>
         drop (EndLine b + (length (Lines c') - length (Lines c))) (Lines c')
           = drop (EndLine b) (Lines c)"
proof -
  from AddIdentityFile_parsed[OF p f a]
  consider "c' = c"
    | front s post where "decomp (Lines c) hostname front s post" "b = mkBlock (length front) s"
        "c' = parseBlocks (c\<lparr>Lines := front @ withLine s keyPath active @ post\<rparr>)"
    by blast
  then show ?thesis
  proof cases
    case 1
    then show ?thesis by simp
  next
    case 2
    have l: "Lines c = front @ s @ post" using decomp_lines[OF 2(1)] .
    show ?thesis unfolding 2(3) 2(2) l by (simp add: length_withLine)
  qed
qed

lemma decomp_block_range:
  assumes "decomp lines hostname front s post"
  shows "length front < length front + length s" "length front + length s \<le> length lines"
  using decomp_valid[OF assms] decomp_lines[OF assms] by (auto simp: validSeg_def)

lemma parsed_block_range:
  assumes "parsed c" "FindHostBlock c hostname = Some b"
  shows "StartLine b < EndLine b \<and> EndLine b \<le> length (Lines c)"
proof -
  from parsed_decomp[OF assms] obtain front s post where
    d: "decomp (Lines c) hostname front s post" and b: "b = mkBlock (length front) s"
    by blast
  show ?thesis using decomp_block_range[OF d] by (simp add: b)
qed

lemma ActivateKey_frame_block:
  assumes p: "parsed c" and f: "FindHostBlock c hostname = Some b"
    and a: "ActivateKey HOME c hostname keyPath = Some (r, c')"
  shows "Lines c' ! StartLine b = Lines c ! StartLine b \<and>
         (\<exists>b'. FindHostBlock c' hostname = Some b' \<and>
               StartLine b' = StartLine b \<and> EndLine b' = EndLine b)"
proof (cases r)
  case (Some e)
  with ActivateKey_error[of HOME c hostname keyPath e c'] a f show ?thesis by simp
next
  case None
  from ActivateKey_parsed[OF p f a[unfolded None]] obtain front s post where
    d: "decomp (Lines c) hostname front s post"
    and b: "b = mkBlock (length front) s"
    and c': "c' = parseBlocks (c\<lparr>Lines := front @ hd s
               # map (rewriteLine HOME (normalizePath HOME keyPath)) (tl s) @ post\<rparr>)"
    and f': "FindHostBlock c' hostname =
               Some (mkBlock (length front)
                      (hd s # map (rewriteLine HOME (normalizePath HOME keyPath)) (tl s)))"
    by (elim exE conjE)
  obtain h body where s: "s = h # body"
    using validSeg_split[OF decomp_valid[OF d]] by blast
  have l: "Lines c = front @ s @ post" using decomp_lines[OF d] .
  have "Lines c' ! StartLine b = Lines c ! StartLine b"
    unfolding c' b l by (simp add: s)
  moreover have "\<exists>b'. FindHostBlock c' hostname = Some b' \<and>
               StartLine b' = StartLine b \<and> EndLine b' = EndLine b"
    unfolding f' b by (simp add: s)
  ultimately show ?thesis by blast
qed

lemma AddIdentityFile_frame_block:
  assumes p: "parsed c" and f: "FindHostBlock c hostname = Some b"
    and a: "AddIdentityFile HOME c hostname keyPath active = Some (r, c')"
  shows "length (Lines c') \<le> Suc (length (Lines c)) \<and>
         Lines c' ! StartLine b = Lines c ! StartLine b \<and>
         (\<exists>b'. FindHostBlock c' hostname = Some b' \<and>
               StartLine b' = StartLine b \<and>
               EndLine b' = EndLine b + (length (Lines c') - length (Lines c)))"
proof -
  from AddIdentityFile_parsed[OF p f a]
  consider "c' = c"
    | front s post where "decomp (Lines c) hostname front s post" "b = mkBlock (length front) s"
        "c' = parseBlocks (c\<lparr>Lines := front @ withLine s keyPath active @ post\<rparr>)"
        "FindHostBlock c' hostname = Some (mkBlock (length front) (withLine s keyPath active))"
    by blast
  then show ?thesis
  proof cases
    case 1
    then show ?thesis using f by simp
  next
    case 2
    have l: "Lines c = front @ s @ post" using decomp_lines[OF 2(1)] .
    have v: "validSeg s" using decomp_valid[OF 2(1)] .
    obtain h body where s: "s = h # body" using validSeg_split[OF v] by blast
    have w: "withLine s keyPath active \<noteq> []"
      using validSeg_withLine(1)[OF v, of keyPath active] by (auto simp: validSeg_def)
    have hw: "withLine s keyPath active ! 0 = h"
      using validSeg_withLine(2)[OF v, of keyPath active] w s by (simp add: hd_conv_nth)
    have 1: "length (Lines c') \<le> Suc (length (Lines c))"
      unfolding 2(3) l by (simp add: length_withLine)
    have 3: "Lines c' ! StartLine b = Lines c ! StartLine b"
      unfolding 2(3) 2(2) l using hw w by (simp add: nth_append s)
    have 4: "\<exists>b'. FindHostBlock c' hostname = Some b' \<and>
               StartLine b' = StartLine b \<and>
               EndLine b' = EndLine b + (length (Lines c') - length (Lines c))"
      unfolding 2(4) unfolding 2(3) 2(2) l by (simp add: length_withLine)
    show ?thesis using 1 3 4 by blast
  qed
qed

text \<open>
  Claim C2. On a parsed configuration \<open>ActivateKey\<close> always returns; it returns an
  error exactly when no block has the host name as its declared pattern, or the block
  found has no entry whose normalized path equals the normalized \<open>keyPath\<close>; the error
  is then a NotFound condition and the configuration (lines and blocks) is the one
  before the call.
\<close>

theorem ActivateKey_NotFound_exactly:
  assumes "parsed c"
  shows "(\<exists>r c'. ActivateKey HOME c hostname keyPath = Some (r, c')) \<and>
         ((\<exists>e c'. ActivateKey HOME c hostname keyPath = Some (Some e, c')) \<longleftrightarrow>
            ((\<forall>b \<in> set (Blocks c). Hostname b \<noteq> hostname) \<or>
             (\<exists>b. FindHostBlock c hostname = Some b \<and>
                  (\<forall>e \<in> set (IdentityFiles b).
                     normalizePath HOME (Path e) \<noteq> normalizePath HOME keyPath)))) \<and>
         (\<forall>e c'. ActivateKey HOME c hostname keyPath = Some (Some e, c')
            \<longrightarrow> isNotFound e \<and> c' = c)"
proof (intro conjI)
  show "\<exists>r c'. ActivateKey HOME c hostname keyPath = Some (r, c')"
    using ActivateKey_returns[OF assms] .
  show "(\<exists>e c'. ActivateKey HOME c hostname keyPath = Some (Some e, c')) \<longleftrightarrow>
        ((\<forall>b \<in> set (Blocks c). Hostname b \<noteq> hostname) \<or>
         (\<exists>b. FindHostBlock c hostname = Some b \<and>
              (\<forall>e \<in> set (IdentityFiles b).
                 normalizePath HOME (Path e) \<noteq> normalizePath HOME keyPath)))"
    unfolding ActivateKey_error_iff keyInBlock_iff
    by (simp add: FindHostBlock_def findBlock_None)
  show "\<forall>e c'. ActivateKey HOME c hostname keyPath = Some (Some e, c')
          \<longrightarrow> isNotFound e \<and> c' = c"
    using ActivateKey_error by blast
qed

theorem ActivateKey_NotFound_exactly_witness:
  "parsed exWork \<and>
   ActivateKey exHome exWork ''ghost'' ''~/.ssh/id_work''
     = Some (Some (NoHostBlock ''ghost''), exWork) \<and>
   ActivateKey exHome exWork ''work'' ''~/.ssh/id_other''
     = Some (Some (IdentityFileNotFound ''~/.ssh/id_other'' ''work''), exWork) \<and>
   isNotFound (NoHostBlock ''ghost'') \<and>
   isNotFound (IdentityFileNotFound ''~/.ssh/id_other'' ''work'')"
proof -
  have h: "parsed exWork" by code_simp
  have a1: "ActivateKey exHome exWork ''ghost'' ''~/.ssh/id_work''
              = Some (Some (NoHostBlock ''ghost''), exWork)" by code_simp
  have a2: "ActivateKey exHome exWork ''work'' ''~/.ssh/id_other''
              = Some (Some (IdentityFileNotFound ''~/.ssh/id_other'' ''work''), exWork)"
    by code_simp
  from ActivateKey_NotFound_exactly[OF h, of exHome "''ghost''" "''~/.ssh/id_work''"] a1
  have "isNotFound (NoHostBlock ''ghost'')" by blast
  moreover
  from ActivateKey_NotFound_exactly[OF h, of exHome "''work''" "''~/.ssh/id_other''"] a2
  have "isNotFound (IdentityFileNotFound ''~/.ssh/id_other'' ''work'')" by blast
  ultimately show ?thesis using h a1 a2 by blast
qed

text \<open>
  Claim C3. On a parsed configuration, whatever \<open>ActivateKey\<close> or \<open>AddIdentityFile\<close>
  returns, the lines before the start of the block found for the host name and the
  lines from its end on are the same before and after the call (after an insertion
  the lines from the end on are one place further, and at most one line is added);
  the \<open>Host\<close> line of the block stays where it was, and after the call the block found
  for the host name starts at the same line and ends where the unchanged lines begin,
  so every line that differs or was inserted lies in that block, after its \<open>Host\<close>
  line. With no such block nothing changes at all. The block is a proper range of the
  line sequence, so the unchanged lines are the preamble and all lines of the other
  blocks.
\<close>

theorem mutation_outside_block_unchanged:
  assumes "parsed c"
  shows "(\<forall>r c'. ActivateKey HOME c hostname keyPath = Some (r, c') \<longrightarrow>
            (case FindHostBlock c hostname of
               None \<Rightarrow> c' = c
             | Some b \<Rightarrow>
                 StartLine b < EndLine b \<and> EndLine b \<le> length (Lines c) \<and>
                 length (Lines c') = length (Lines c) \<and>
                 take (StartLine b) (Lines c') = take (StartLine b) (Lines c) \<and>
                 drop (EndLine b) (Lines c') = drop (EndLine b) (Lines c) \<and>
                 Lines c' ! StartLine b = Lines c ! StartLine b \<and>
                 (\<exists>b'. FindHostBlock c' hostname = Some b' \<and>
                       StartLine b' = StartLine b \<and> EndLine b' = EndLine b))) \<and>
         (\<forall>r c'. AddIdentityFile HOME c hostname keyPath active = Some (r, c') \<longrightarrow>
            (case FindHostBlock c hostname of
               None \<Rightarrow> c' = c
             | Some b \<Rightarrow>
                 StartLine b < EndLine b \<and> EndLine b \<le> length (Lines c) \<and>
                 length (Lines c) \<le> length (Lines c') \<and>
                 take (StartLine b) (Lines c') = take (StartLine b) (Lines c) \<and>
                 drop (EndLine b + (length (Lines c') - length (Lines c))) (Lines c')
                   = drop (EndLine b) (Lines c) \<and>
                 length (Lines c') \<le> Suc (length (Lines c)) \<and>
                 Lines c' ! StartLine b = Lines c ! StartLine b \<and>
                 (\<exists>b'. FindHostBlock c' hostname = Some b' \<and>
                       StartLine b' = StartLine b \<and>
                       EndLine b' = EndLine b + (length (Lines c') - length (Lines c)))))"
proof (cases "FindHostBlock c hostname")
  case None
  then show ?thesis
    by (simp add: ActivateKey_no_block AddIdentityFile_no_block)
next
  case (Some b)
  have 1: "\<forall>r c'. ActivateKey HOME c hostname keyPath = Some (r, c') \<longrightarrow>
                 StartLine b < EndLine b \<and> EndLine b \<le> length (Lines c) \<and>
                 length (Lines c') = length (Lines c) \<and>
                 take (StartLine b) (Lines c') = take (StartLine b) (Lines c) \<and>
                 drop (EndLine b) (Lines c') = drop (EndLine b) (Lines c) \<and>
                 Lines c' ! StartLine b = Lines c ! StartLine b \<and>
                 (\<exists>b'. FindHostBlock c' hostname = Some b' \<and>
                       StartLine b' = StartLine b \<and> EndLine b' = EndLine b)"
    using ActivateKey_frame[OF assms Some] ActivateKey_frame_block[OF assms Some]
      parsed_block_range[OF assms Some]
    by blast
  have 2: "\<forall>r c'. AddIdentityFile HOME c hostname keyPath active = Some (r, c') \<longrightarrow>
                 StartLine b < EndLine b \<and> EndLine b \<le> length (Lines c) \<and>
                 length (Lines c) \<le> length (Lines c') \<and>
                 take (StartLine b) (Lines c') = take (StartLine b) (Lines c) \<and>
                 drop (EndLine b + (length (Lines c') - length (Lines c))) (Lines c')
                   = drop (EndLine b) (Lines c) \<and>
                 length (Lines c') \<le> Suc (length (Lines c)) \<and>
                 Lines c' ! StartLine b = Lines c ! StartLine b \<and>
                 (\<exists>b'. FindHostBlock c' hostname = Some b' \<and>
                       StartLine b' = StartLine b \<and>
                       EndLine b' = EndLine b + (length (Lines c') - length (Lines c)))"
    using AddIdentityFile_frame[OF assms Some] AddIdentityFile_frame_block[OF assms Some]
      parsed_block_range[OF assms Some]
    by blast
  show ?thesis unfolding Some option.case using 1 2 by blast
qed

theorem mutation_outside_block_unchanged_witness:
  "parsed exWork \<and>
   ActivateKey exHome exWork ''work'' ''~/.ssh/id_personal'' = Some (None, exWorkAfter) \<and>
   AddIdentityFile exHome exWork ''work'' ''~/.ssh/id_new'' False = Some (None, exWorkAdded) \<and>
   map_option StartLine (FindHostBlock exWork ''work'') = Some 1 \<and>
   map_option EndLine (FindHostBlock exWork ''work'') = Some 4 \<and>
   take 1 (Lines exWorkAfter) = take 1 (Lines exWork) \<and>
   drop 4 (Lines exWorkAfter) = drop 4 (Lines exWork) \<and>
   Lines exWorkAfter ! 1 = Lines exWork ! 1 \<and>
   (\<exists>b'. FindHostBlock exWorkAfter ''work'' = Some b' \<and> StartLine b' = 1 \<and> EndLine b' = 4) \<and>
   take 1 (Lines exWorkAdded) = take 1 (Lines exWork) \<and>
   drop 5 (Lines exWorkAdded) = drop 4 (Lines exWork) \<and>
   Lines exWorkAdded ! 1 = Lines exWork ! 1 \<and>
   (\<exists>b'. FindHostBlock exWorkAdded ''work'' = Some b' \<and> StartLine b' = 1 \<and> EndLine b' = 5)"
proof -
  have h: "parsed exWork" by code_simp
  have a: "ActivateKey exHome exWork ''work'' ''~/.ssh/id_personal'' = Some (None, exWorkAfter)"
    by code_simp
  have a': "AddIdentityFile exHome exWork ''work'' ''~/.ssh/id_new'' False
              = Some (None, exWorkAdded)"
    by code_simp
  have f: "FindHostBlock exWork ''work'' = Some (the (FindHostBlock exWork ''work''))"
    by code_simp
  have s: "StartLine (the (FindHostBlock exWork ''work'')) = 1"
    and e: "EndLine (the (FindHostBlock exWork ''work'')) = 4"
    and n: "length (Lines exWorkAdded) - length (Lines exWork) = 1" by code_simp+
  note t = mutation_outside_block_unchanged[OF h, of exHome "''work''" _ _]
  from t[of "''~/.ssh/id_personal''" False] a
  have "case FindHostBlock exWork ''work'' of
          None \<Rightarrow> exWorkAfter = exWork
        | Some b \<Rightarrow>
            StartLine b < EndLine b \<and> EndLine b \<le> length (Lines exWork) \<and>
            length (Lines exWorkAfter) = length (Lines exWork) \<and>
            take (StartLine b) (Lines exWorkAfter) = take (StartLine b) (Lines exWork) \<and>
            drop (EndLine b) (Lines exWorkAfter) = drop (EndLine b) (Lines exWork) \<and>
            Lines exWorkAfter ! StartLine b = Lines exWork ! StartLine b \<and>
            (\<exists>b'. FindHostBlock exWorkAfter ''work'' = Some b' \<and>
                  StartLine b' = StartLine b \<and> EndLine b' = EndLine b)"
    by blast
  then have r1: "take 1 (Lines exWorkAfter) = take 1 (Lines exWork) \<and>
             drop 4 (Lines exWorkAfter) = drop 4 (Lines exWork) \<and>
             Lines exWorkAfter ! 1 = Lines exWork ! 1 \<and>
             (\<exists>b'. FindHostBlock exWorkAfter ''work'' = Some b' \<and>
                   StartLine b' = 1 \<and> EndLine b' = 4)"
    by (subst (asm) f) (simp add: s e)
  from t[of "''~/.ssh/id_new''" False] a'
  have "case FindHostBlock exWork ''work'' of
          None \<Rightarrow> exWorkAdded = exWork
        | Some b \<Rightarrow>
            StartLine b < EndLine b \<and> EndLine b \<le> length (Lines exWork) \<and>
            length (Lines exWork) \<le> length (Lines exWorkAdded) \<and>
            take (StartLine b) (Lines exWorkAdded) = take (StartLine b) (Lines exWork) \<and>
            drop (EndLine b + (length (Lines exWorkAdded) - length (Lines exWork)))
              (Lines exWorkAdded) = drop (EndLine b) (Lines exWork) \<and>
            length (Lines exWorkAdded) \<le> Suc (length (Lines exWork)) \<and>
            Lines exWorkAdded ! StartLine b = Lines exWork ! StartLine b \<and>
            (\<exists>b'. FindHostBlock exWorkAdded ''work'' = Some b' \<and>
                  StartLine b' = StartLine b \<and>
                  EndLine b' = EndLine b + (length (Lines exWorkAdded) - length (Lines exWork)))"
    by blast
  then have r2: "take 1 (Lines exWorkAdded) = take 1 (Lines exWork) \<and>
             drop 5 (Lines exWorkAdded) = drop 4 (Lines exWork) \<and>
             Lines exWorkAdded ! 1 = Lines exWork ! 1 \<and>
             (\<exists>b'. FindHostBlock exWorkAdded ''work'' = Some b' \<and>
                   StartLine b' = 1 \<and> EndLine b' = 5)"
    by (subst (asm) f) (simp add: s e n)
  have "map_option StartLine (FindHostBlock exWork ''work'') = Some 1"
    "map_option EndLine (FindHostBlock exWork ''work'') = Some 4"
    by code_simp+
  then show ?thesis using h a a' r1 r2 by blast
qed

text \<open>
  Claim C10. In a successful \<open>ActivateKey\<close> on a parsed configuration, the line of
  every entry of the block whose normalized path equals the normalized \<open>keyPath\<close>
  becomes the leading blanks of the original line, \<open>IdentityFile\<close>, one space and the
  path as the entry holds it, whether or not the entry was commented; the line of
  every other entry that is already commented stays as it is. A matching line that
  is already uncommented can therefore change: there is an uncommented identity-file
  line that \<open>uncommentIdentityFile\<close> does not return unchanged.
\<close>

theorem ActivateKey_canonical_lines:
  assumes "parsed c"
    and "FindHostBlock c hostname = Some b"
    and "ActivateKey HOME c hostname keyPath = Some (None, c')"
    and "e \<in> set (IdentityFiles b)"
  shows "Lines c ! (StartLine b + LineIndex e) = FullLine e \<and>
         (normalizePath HOME (Path e) = normalizePath HOME keyPath \<longrightarrow>
            Lines c' ! (StartLine b + LineIndex e)
              = takeWhile isBlank (FullLine e) @ ''IdentityFile '' @ Path e) \<and>
         (normalizePath HOME (Path e) \<noteq> normalizePath HOME keyPath \<and> IsCommented e \<longrightarrow>
            Lines c' ! (StartLine b + LineIndex e) = FullLine e) \<and>
         (\<exists>line m3. identityFilePattern line = Some ([], m3) \<and>
            uncommentIdentityFile line \<noteq> line)"
proof -
  let ?nk = "normalizePath HOME keyPath"
  from ActivateKey_parsed[OF assms(1-3)] obtain front s post where
    d: "decomp (Lines c) hostname front s post"
    and b: "b = mkBlock (length front) s"
    and c': "c' = parseBlocks (c\<lparr>Lines :=
               front @ hd s # map (rewriteLine HOME ?nk) (tl s) @ post\<rparr>)"
    by (elim exE conjE)
  obtain h body where s: "s = h # body"
    using validSeg_split[OF decomp_valid[OF d]] by blast
  have e: "e \<in> set (entriesFrom 1 body)" using assms(4) b s by simp
  from entriesFrom_mem[OF e] obtain m1 m3 where
    i: "1 \<le> LineIndex e" "LineIndex e < 1 + length body"
       "FullLine e = body ! (LineIndex e - 1)"
    and m: "identityFilePattern (FullLine e) = Some (m1, m3)" "Path e = TrimSpace m3"
       "IsCommented e = (m1 \<noteq> [])"
    by blast
  obtain j where j: "LineIndex e = Suc j" "j < length body" using i(1,2) by (cases "LineIndex e") auto
  have fl: "FullLine e = body ! j" using i(3) j by simp
  have st: "StartLine b + LineIndex e = length (front @ [h]) + j" by (simp add: b j)
  have l: "Lines c = (front @ [h]) @ body @ post" using decomp_lines[OF d] s by simp
  have l': "Lines c' = (front @ [h]) @ map (rewriteLine HOME ?nk) body @ post"
    by (simp add: c' s)
  have old: "Lines c ! (StartLine b + LineIndex e) = FullLine e"
    unfolding st l fl using j(2) by (simp only: nth_append_length_plus) (simp add: nth_append)
  have new: "Lines c' ! (StartLine b + LineIndex e) = rewriteLine HOME ?nk (FullLine e)"
    unfolding st l' fl using j(2) by (simp only: nth_append_length_plus) (simp add: nth_append)
  have ex: "identityFilePattern ''identityfile  k'' = Some ([], ''k'')"
    "uncommentIdentityFile ''identityfile  k'' \<noteq> ''identityfile  k''"
    by code_simp+
  show ?thesis
    using old new m comment_commented[OF m(1)] ex
    by (auto simp: rewriteLine_def uncommentIdentityFile_def)
qed

theorem ActivateKey_canonical_lines_witness:
  "parsed exFolded \<and>
   ActivateKey exHome exFolded ''work'' ''~/.ssh/id_work'' = Some (None, exFoldedAfter) \<and>
   Lines exFolded ! 1 = ''  identityfile   ~/.ssh/id_work'' \<and>
   Lines exFoldedAfter ! 1 = ''  IdentityFile ~/.ssh/id_work'' \<and>
   Lines exFoldedAfter ! 2 = Lines exFolded ! 2"
proof -
  let ?b = "the (FindHostBlock exFolded ''work'')"
  let ?e1 = "IdentityFiles ?b ! 0"
  let ?e2 = "IdentityFiles ?b ! 1"
  have h: "parsed exFolded" by code_simp
  have f: "FindHostBlock exFolded ''work'' = Some ?b" by code_simp
  have a: "ActivateKey exHome exFolded ''work'' ''~/.ssh/id_work'' = Some (None, exFoldedAfter)"
    by code_simp
  have m1: "?e1 \<in> set (IdentityFiles ?b)" and m2: "?e2 \<in> set (IdentityFiles ?b)"
    by code_simp+
  have v1: "StartLine ?b + LineIndex ?e1 = 1"
    "normalizePath exHome (Path ?e1) = normalizePath exHome ''~/.ssh/id_work''"
    "takeWhile isBlank (FullLine ?e1) @ ''IdentityFile '' @ Path ?e1
       = ''  IdentityFile ~/.ssh/id_work''"
    "FullLine ?e1 = ''  identityfile   ~/.ssh/id_work''"
    by code_simp+
  have v2: "StartLine ?b + LineIndex ?e2 = 2"
    "normalizePath exHome (Path ?e2) \<noteq> normalizePath exHome ''~/.ssh/id_work''"
    "IsCommented ?e2"
    by code_simp+
  from ActivateKey_canonical_lines[OF h f a m1] v1
  have r1: "Lines exFolded ! 1 = ''  identityfile   ~/.ssh/id_work''"
    "Lines exFoldedAfter ! 1 = ''  IdentityFile ~/.ssh/id_work''"
    by simp_all
  from ActivateKey_canonical_lines[OF h f a m2] v2
  have r2: "Lines exFoldedAfter ! 2 = Lines exFolded ! 2" by simp
  show ?thesis using h a r1 r2 by blast
qed

section \<open>Adding a key twice, and the inserted line\<close>

lemma newLine_ident:
  assumes "keyPath \<noteq> []" "NL \<notin> set keyPath" "TrimSpace keyPath = keyPath"
  shows "\<exists>m1. identityFilePattern (newLine s keyPath active) = Some (m1, keyPath)"
proof -
  have "noLead keyPath" "noTrail keyPath"
    using TrimSpace_noLead[of keyPath] TrimSpace_noTrail[of keyPath] assms(3) by simp_all
  then have h: "\<not> isSpaceRE (hd keyPath)" "\<not> isSpaceRE (last keyPath)"
    using noLead_hd noTrail_last assms(1) by blast+
  show ?thesis
    using ident_uncommented[OF scanIndent_blank assms(1) h assms(2), of "tl s"]
      ident_commented[OF scanIndent_blank assms(1) h assms(2), of "tl s"]
    by (simp add: newLine_def)
qed

lemma withLine_has_key:
  assumes "s \<noteq> []" "keyPath \<noteq> []" "NL \<notin> set keyPath" "TrimSpace keyPath = keyPath"
  shows "keyInBlock HOME (normalizePath HOME keyPath)
           (entriesFrom 1 (tl (withLine s keyPath active)))"
proof -
  from insertPos_bounds[OF assms(1)] obtain m where m: "insertPos s = Suc m" "Suc m \<le> length s"
    by (cases "insertPos s") auto
  obtain h body where hb: "s = h # body" using assms(1) by (cases s) auto
  have w: "tl (withLine s keyPath active) = take m body @ newLine s keyPath active # drop m body"
    using m by (simp add: withLine_def hb)
  have len: "length (take m body) = m" using m(2) hb by simp
  have j: "m < length (tl (withLine s keyPath active))" unfolding w using len by simp
  have n: "tl (withLine s keyPath active) ! m = newLine s keyPath active"
    unfolding w using len by (metis nth_append_length)
  from newLine_ident[OF assms(2-4), of s active] obtain m1 where
    "identityFilePattern (tl (withLine s keyPath active) ! m) = Some (m1, keyPath)"
    using n by auto
  from entriesFrom_has[OF j this, of 1] obtain e where
    "e \<in> set (entriesFrom 1 (tl (withLine s keyPath active)))" "Path e = TrimSpace keyPath"
    by blast
  then show ?thesis using assms(4) by (auto simp: keyInBlock_iff)
qed

lemma AddIdentityFile_existing:
  "FindHostBlock c hostname = Some b \<Longrightarrow>
   \<exists>e \<in> set (IdentityFiles b). normalizePath HOME (Path e) = normalizePath HOME keyPath \<Longrightarrow>
   AddIdentityFile HOME c hostname keyPath active = Some (None, c)"
  by (simp add: AddIdentityFile_def keyInBlock_iff)

lemma AddIdentityFile_twice:
  assumes p: "parsed c"
    and a: "AddIdentityFile HOME c hostname keyPath active = Some (None, c')"
    and k: "keyPath \<noteq> []" "NL \<notin> set keyPath" "TrimSpace keyPath = keyPath"
  shows "AddIdentityFile HOME c' hostname keyPath active = Some (None, c')"
proof -
  from a obtain b where f: "FindHostBlock c hostname = Some b"
    by (cases "FindHostBlock c hostname") (auto simp: AddIdentityFile_def)
  from AddIdentityFile_parsed[OF p f a]
  consider "c' = c"
    | front s post where "decomp (Lines c) hostname front s post"
        "FindHostBlock c' hostname = Some (mkBlock (length front) (withLine s keyPath active))"
    by blast
  then show ?thesis
  proof cases
    case 1
    then show ?thesis using a by simp
  next
    case 2
    have "s \<noteq> []" using decomp_valid[OF 2(1)] by (simp add: validSeg_def)
    from withLine_has_key[OF this k, of HOME active]
    show ?thesis by (simp add: AddIdentityFile_def 2(2))
  qed
qed

text \<open>
  Claim C5, amended. A call of \<open>AddIdentityFile\<close> on a block that already holds an
  entry with the same normalized path, commented or not, returns success and the
  configuration as it was. When a call on a parsed configuration succeeds and
  \<open>keyPath\<close> is not empty, holds no newline and has no white space at either end, a
  second call with the same arguments succeeds and returns the configuration of the
  first, so the line sequence is the same.
\<close>

theorem AddIdentityFile_idempotent:
  assumes "parsed c"
  shows "(\<forall>b. FindHostBlock c hostname = Some b \<and>
              (\<exists>e \<in> set (IdentityFiles b).
                 normalizePath HOME (Path e) = normalizePath HOME keyPath)
            \<longrightarrow> AddIdentityFile HOME c hostname keyPath active = Some (None, c)) \<and>
         (\<forall>c'. AddIdentityFile HOME c hostname keyPath active = Some (None, c') \<and>
               keyPath \<noteq> [] \<and> NL \<notin> set keyPath \<and> TrimSpace keyPath = keyPath
            \<longrightarrow> AddIdentityFile HOME c' hostname keyPath active = Some (None, c'))"
  using AddIdentityFile_existing AddIdentityFile_twice[OF assms] by blast

theorem AddIdentityFile_idempotent_witness:
  "parsed exWork \<and>
   AddIdentityFile exHome exWork ''work'' ''~/.ssh/id_new'' False = Some (None, exWorkAdded) \<and>
   AddIdentityFile exHome exWorkAdded ''work'' ''~/.ssh/id_new'' False
     = Some (None, exWorkAdded)"
proof -
  let ?c' = "exWorkAdded"
  have h: "parsed exWork" by code_simp
  have a: "AddIdentityFile exHome exWork ''work'' ''~/.ssh/id_new'' False = Some (None, ?c')"
    by code_simp
  have k: "''~/.ssh/id_new'' \<noteq> []" "NL \<notin> set ''~/.ssh/id_new''"
    "TrimSpace ''~/.ssh/id_new'' = ''~/.ssh/id_new''"
    by code_simp+
  from AddIdentityFile_idempotent[OF h, of "''work''" exHome "''~/.ssh/id_new''" False] a k
  have "AddIdentityFile exHome ?c' ''work'' ''~/.ssh/id_new'' False = Some (None, ?c')"
    by blast
  with h a show ?thesis by blast
qed

text \<open>
  Claim C5 as stated fails for an empty \<open>keyPath\<close>, for one that ends in a space
  and for one that holds a newline: the line the first call inserts does not parse to
  an entry with that path, and the second call inserts the line again.
\<close>

theorem AddIdentityFile_idempotent_counterexample:
  "AddIdentityFile exHome (exCfg [''Host a'']) ''a'' [] True
     = Some (None, exCfg [''Host a'', ''    IdentityFile '']) \<and>
   AddIdentityFile exHome (exCfg [''Host a'', ''    IdentityFile '']) ''a'' [] True
     = Some (None, exCfg [''Host a'', ''    IdentityFile '', ''    IdentityFile '']) \<and>
   AddIdentityFile exHome (exCfg [''Host a'']) ''a'' ''~/.ssh/id '' True
     = Some (None, exCfg [''Host a'', ''    IdentityFile ~/.ssh/id '']) \<and>
   AddIdentityFile exHome (exCfg [''Host a'', ''    IdentityFile ~/.ssh/id '']) ''a''
       ''~/.ssh/id '' True
     = Some (None, exCfg [''Host a'', ''    IdentityFile ~/.ssh/id '',
                          ''    IdentityFile ~/.ssh/id '']) \<and>
   AddIdentityFile exHome (exCfg [''Host a'']) ''a'' (''k'' @ [NL] @ ''x'') True
     = Some (None, exCfg [''Host a'', ''    IdentityFile k'' @ [NL] @ ''x'']) \<and>
   AddIdentityFile exHome (exCfg [''Host a'', ''    IdentityFile k'' @ [NL] @ ''x'']) ''a''
       (''k'' @ [NL] @ ''x'') True
     = Some (None, exCfg [''Host a'', ''    IdentityFile k'' @ [NL] @ ''x'',
                          ''    IdentityFile k'' @ [NL] @ ''x''])"
  by code_simp

text \<open>
  Claim C9, amended. When the block found for the host name on a parsed configuration
  has no entry with the normalized path of \<open>keyPath\<close>, \<open>AddIdentityFile\<close> succeeds and
  inserts one line. The line is placed right after the line of the block's last entry
  (an identity-file line, with no identity-file line after it in the block), or right
  after the host line when the block has no entry. It is made of an indentation,
  \<open>IdentityFile\<close> or \<open># IdentityFile\<close> as \<open>active\<close> says, one space and \<open>keyPath\<close> as
  given. The indentation is the leading blanks (spaces and tabs) of the first line
  after the host line that is not empty once its leading blanks are stripped and
  does have leading blanks, and four spaces when the block has no such line.
\<close>

theorem AddIdentityFile_inserted_line:
  assumes "parsed c"
    and "FindHostBlock c hostname = Some b"
    and "\<forall>e \<in> set (IdentityFiles b).
           normalizePath HOME (Path e) \<noteq> normalizePath HOME keyPath"
  shows "let idx = (if IdentityFiles b = [] then StartLine b + 1
                    else StartLine b + LineIndex (last (IdentityFiles b)) + 1);
             indent = (case find (\<lambda>l. TrimLeft l \<noteq> [] \<and> TrimLeft l \<noteq> l) (tl (BLines b)) of
                         None \<Rightarrow> ''    ''
                       | Some l \<Rightarrow> takeWhile isBlank l);
             line = indent @ (if active then ''IdentityFile '' else ''# IdentityFile '') @ keyPath
         in \<exists>c'. AddIdentityFile HOME c hostname keyPath active = Some (None, c') \<and>
                Lines c' = take idx (Lines c) @ line # drop idx (Lines c) \<and>
                StartLine b < idx \<and> idx \<le> EndLine b \<and> EndLine b \<le> length (Lines c) \<and>
                hostPattern (Lines c ! StartLine b) \<noteq> None \<and>
                (IdentityFiles b \<noteq> [] \<longrightarrow>
                   Lines c ! (idx - 1) = FullLine (last (IdentityFiles b)) \<and>
                   identityFilePattern (Lines c ! (idx - 1)) \<noteq> None) \<and>
                (\<forall>j. idx \<le> j \<and> j < EndLine b \<longrightarrow> identityFilePattern (Lines c ! j) = None)"
proof -
  from parsed_decomp[OF assms(1,2)] obtain front s post where
    d: "decomp (Lines c) hostname front s post" and b: "b = mkBlock (length front) s"
    by blast
  have v: "validSeg s" using decomp_valid[OF d] .
  then have sne: "s \<noteq> []" by (simp add: validSeg_def)
  have l: "Lines c = front @ s @ post" using decomp_lines[OF d] .
  have k: "\<not> keyInBlock HOME (normalizePath HOME keyPath) (entriesFrom 1 (tl s))"
    using assms(3) b by (simp add: keyInBlock_iff)
  let ?idx = "length front + insertPos s"
  let ?c' = "parseBlocks (c\<lparr>Lines := front @ withLine s keyPath active @ post\<rparr>)"
  have idx: "(if IdentityFiles b = [] then StartLine b + 1
              else StartLine b + LineIndex (last (IdentityFiles b)) + 1) = ?idx"
    by (simp add: b insertPos_def)
  have ind: "(case find (\<lambda>l. TrimLeft l \<noteq> [] \<and> TrimLeft l \<noteq> l) (tl (BLines b)) of
                None \<Rightarrow> ''    '' | Some l \<Rightarrow> takeWhile isBlank l) = scanIndent (tl s)"
    by (simp add: b scanIndent_find)
  have line: "scanIndent (tl s) @ (if active then ''IdentityFile '' else ''# IdentityFile '')
                @ keyPath = newLine s keyPath active"
    by (simp add: newLine_def)
  have bd: "1 \<le> insertPos s" "insertPos s \<le> length s" using insertPos_bounds[OF sne] by simp_all
  have r: "AddIdentityFile HOME c hostname keyPath active = Some (None, ?c')"
    using AddIdentityFile_inserts[OF d assms(2)[unfolded b] k] .
  have lines': "Lines ?c' = take ?idx (Lines c) @ newLine s keyPath active # drop ?idx (Lines c)"
    unfolding l using bd(2) by (simp add: withLine_def)
  have rng: "StartLine b < ?idx" "?idx \<le> EndLine b" "EndLine b \<le> length (Lines c)"
    using bd by (simp_all add: b l)
  have nth_s: "Lines c ! (length front + j) = s ! j" if "j < length s" for j
    unfolding l using that by (simp add: nth_append)
  have host: "hostPattern (Lines c ! StartLine b) \<noteq> None"
    using nth_s[of 0] sne v by (simp add: b validSeg_def isHost_def hd_conv_nth)
  have lastE: "Lines c ! (?idx - 1) = FullLine (last (IdentityFiles b)) \<and>
               identityFilePattern (Lines c ! (?idx - 1)) \<noteq> None"
    if ne: "IdentityFiles b \<noteq> []"
  proof -
    let ?e = "last (entriesFrom 1 (tl s))"
    have ne': "entriesFrom 1 (tl s) \<noteq> []" using ne b by simp
    then have "?e \<in> set (entriesFrom 1 (tl s))" by simp
    from entriesFrom_mem[OF this] obtain m1 m3 where
      e: "1 \<le> LineIndex ?e" "LineIndex ?e < 1 + length (tl s)"
         "FullLine ?e = tl s ! (LineIndex ?e - 1)"
         "identityFilePattern (FullLine ?e) = Some (m1, m3)" by blast
    have ip: "insertPos s = LineIndex ?e + 1" using ne' by (simp add: insertPos_def)
    have lt: "LineIndex ?e < length s" using e(2) sne by simp
    have "tl s ! (LineIndex ?e - 1) = s ! LineIndex ?e"
      using e(1) sne by (cases s; cases "LineIndex ?e") simp_all
    then have "Lines c ! (?idx - 1) = FullLine ?e"
      using nth_s[OF lt] e(3) by (simp add: ip)
    then show ?thesis using e(4) by (simp add: b)
  qed
  have after: "\<forall>j. ?idx \<le> j \<and> j < EndLine b \<longrightarrow> identityFilePattern (Lines c ! j) = None"
  proof (intro allI impI)
    fix j assume j: "?idx \<le> j \<and> j < EndLine b"
    then obtain i where i: "j = length front + i" "insertPos s \<le> i" "i < length s"
      by (auto simp: b le_iff_add add.assoc)
    show "identityFilePattern (Lines c ! j) = None"
      using after_insertPos[OF i(2,3)] nth_s[OF i(3)] by (simp add: i(1))
  qed
  show ?thesis
    unfolding Let_def idx ind line
    using r lines' rng host lastE after by blast
qed

theorem AddIdentityFile_inserted_line_witness:
  "parsed exWork \<and>
   AddIdentityFile exHome exWork ''work'' ''~/.ssh/id_new'' False
     = Some (None, exWorkAdded) \<and>
   Lines exWork ! 3 = ''    # IdentityFile ~/.ssh/id_personal''"
proof -
  let ?b = "the (FindHostBlock exWork ''work'')"
  have h: "parsed exWork" by code_simp
  have f: "FindHostBlock exWork ''work'' = Some ?b" by code_simp
  have n: "\<forall>e \<in> set (IdentityFiles ?b).
      normalizePath exHome (Path e) \<noteq> normalizePath exHome ''~/.ssh/id_new''" by code_simp
  have v: "IdentityFiles ?b \<noteq> []"
    "StartLine ?b + LineIndex (last (IdentityFiles ?b)) + 1 = 4"
    "FullLine (last (IdentityFiles ?b)) = ''    # IdentityFile ~/.ssh/id_personal''"
    by code_simp+
  have a: "AddIdentityFile exHome exWork ''work'' ''~/.ssh/id_new'' False
     = Some (None, exWorkAdded)"
    by code_simp
  from AddIdentityFile_inserted_line[OF h f n, of False] v
  have "Lines exWork ! 3 = ''    # IdentityFile ~/.ssh/id_personal''"
    by (auto simp: Let_def)
  with h a show ?thesis by blast
qed

text \<open>
  Claim C9 as stated fails on a block whose first line after the host line holds
  blanks only: that line differs from itself stripped, so the claim takes its two
  spaces, while \<open>detectIndent\<close> passes it over and takes the tab of the next line.
\<close>

theorem AddIdentityFile_indent_counterexample:
  "map_option (\<lambda>b. specIndent (BLines b)) (FindHostBlock exBlankLine ''a'') = Some ''  '' \<and>
   map_option (\<lambda>b. detectIndent (BLines b)) (FindHostBlock exBlankLine ''a'')
     = Some (Some [TAB]) \<and>
   AddIdentityFile exHome exBlankLine ''a'' ''~/.ssh/id_a'' True
     = Some (None, exCfg [''Host a'', TAB # ''IdentityFile ~/.ssh/id_a'', ''  '',
                          TAB # ''User git''])"
  by code_simp

section \<open>The blocks of a parsed configuration\<close>

lemma parseBlocks_idem: "parseBlocks (parseBlocks c) = parseBlocks c"
  by (simp add: parseBlocks_def split: prod.splits)

lemma ParseConfig_parsed:
  assumes "ParseConfig HOME fs path = Inr c"
  shows "parsed c"
proof -
  have "parsed \<lparr>CfgPath = p, Lines = [], Blocks = []\<rparr>" for p
    by (simp add: parsed_def parseBlocks_def closeBlock_def)
  then show ?thesis
    using assms unfolding ParseConfig_def Let_def
    by (auto split: option.splits if_splits)
qed

lemma ActivateKey_keeps_parsed:
  "parsed c \<Longrightarrow> ActivateKey HOME c hostname keyPath = Some (r, c') \<Longrightarrow> parsed c'"
  unfolding ActivateKey_def Let_def
  by (auto split: option.splits if_splits)

lemma AddIdentityFile_keeps_parsed:
  "parsed c \<Longrightarrow> AddIdentityFile HOME c hostname keyPath active = Some (r, c') \<Longrightarrow> parsed c'"
  unfolding AddIdentityFile_def Let_def
  by (auto split: option.splits if_splits)

lemma mkBlocks_mem:
  "b \<in> set (mkBlocks i ss) \<Longrightarrow>
   \<exists>ss1 s ss2. ss = ss1 @ s # ss2 \<and> b = mkBlock (i + length (concat ss1)) s"
proof (induction ss arbitrary: i)
  case Nil
  then show ?case by simp
next
  case (Cons s ss)
  show ?case
  proof (cases "b = mkBlock i s")
    case True
    then show ?thesis by (intro exI[of _ "[]"] exI[of _ s] exI[of _ ss]) simp
  next
    case False
    with Cons.prems have "b \<in> set (mkBlocks (i + length s) ss)" by simp
    from Cons.IH[OF this] obtain ss1 t ss2 where
      "ss = ss1 @ t # ss2" "b = mkBlock (i + length s + length (concat ss1)) t" by blast
    then show ?thesis
      by (intro exI[of _ "s # ss1"] exI[of _ t] exI[of _ ss2]) (simp add: add.assoc)
  qed
qed

lemma mkBlocks_sorted: "sorted_wrt (\<lambda>a b. EndLine a \<le> StartLine b) (mkBlocks i ss)"
proof (induction ss arbitrary: i)
  case Nil
  then show ?case by simp
next
  case (Cons s ss)
  have "EndLine (mkBlock i s) \<le> StartLine b" if "b \<in> set (mkBlocks (i + length s) ss)" for b
    using mkBlocks_mem[OF that] by auto
  then show ?case using Cons.IH by simp
qed

lemma parsed_blocks:
  assumes "parsed c"
  shows "sorted_wrt (\<lambda>a b. EndLine a \<le> StartLine b) (Blocks c)"
    and "\<forall>b \<in> set (Blocks c).
           StartLine b < EndLine b \<and> EndLine b \<le> length (Lines c) \<and>
           (\<exists>m. hostPattern (Lines c ! StartLine b) = Some m \<and> Hostname b = TrimSpace m) \<and>
           BLines b = take (EndLine b - StartLine b) (drop (StartLine b) (Lines c))"
proof -
  obtain pre ss where d: "Lines c = pre @ concat ss" "\<forall>l \<in> set pre. \<not> isHost l"
    "\<forall>s \<in> set ss. validSeg s" using segs_exist by blast
  have bl: "Blocks c = mkBlocks (length pre) ss"
    using assms parseBlocks_segs[OF d] by (simp add: parsed_def)
  show "sorted_wrt (\<lambda>a b. EndLine a \<le> StartLine b) (Blocks c)"
    unfolding bl by (rule mkBlocks_sorted)
  show "\<forall>b \<in> set (Blocks c).
           StartLine b < EndLine b \<and> EndLine b \<le> length (Lines c) \<and>
           (\<exists>m. hostPattern (Lines c ! StartLine b) = Some m \<and> Hostname b = TrimSpace m) \<and>
           BLines b = take (EndLine b - StartLine b) (drop (StartLine b) (Lines c))"
  proof
    fix b assume "b \<in> set (Blocks c)"
    then have "b \<in> set (mkBlocks (length pre) ss)" by (simp add: bl)
    from mkBlocks_mem[OF this] obtain ss1 s ss2 where
      ss: "ss = ss1 @ s # ss2" and b: "b = mkBlock (length pre + length (concat ss1)) s"
      by blast
    have v: "validSeg s" using d(3) ss by simp
    then obtain h body where s: "s = h # body" using validSeg_split by blast
    from v obtain m where m: "hostPattern h = Some m"
      by (auto simp: validSeg_def isHost_def s)
    have l: "Lines c = (pre @ concat ss1) @ s @ concat ss2" using d(1) ss by simp
    have n: "Lines c ! (length pre + length (concat ss1)) = h"
      unfolding l s by (metis append_Cons length_append nth_append_length)
    have dr: "drop (length pre + length (concat ss1)) (Lines c) = s @ concat ss2"
      unfolding l by (metis append_eq_conv_conj length_append)
    show "StartLine b < EndLine b \<and> EndLine b \<le> length (Lines c) \<and>
           (\<exists>m. hostPattern (Lines c ! StartLine b) = Some m \<and> Hostname b = TrimSpace m) \<and>
           BLines b = take (EndLine b - StartLine b) (drop (StartLine b) (Lines c))"
      unfolding b mkBlock_simps n dr
      using m by (simp add: l s hostOf_def)
  qed
qed

text \<open>
  Claim C4. The parser is idempotent. A configuration is \<open>parsed\<close> when its stored
  blocks are the blocks the parser produces from its current lines; the configuration
  \<open>ParseConfig\<close> returns is parsed, and whatever \<open>ActivateKey\<close> or \<open>AddIdentityFile\<close>
  returns on a parsed configuration is parsed. The blocks of a parsed configuration
  are ranges of the line sequence, each ending no later than the next begins, each
  not empty, within the sequence, beginning at a host-declaration line and holding
  the lines of its range.
\<close>

theorem parseBlocks_invariant:
  "parseBlocks (parseBlocks c) = parseBlocks c \<and>
   parsed (parseBlocks c) \<and>
   (\<forall>c0. ParseConfig HOME fs path = Inr c0 \<longrightarrow> parsed c0) \<and>
   (parsed c \<longrightarrow>
      (\<forall>r c'. ActivateKey HOME c hostname keyPath = Some (r, c') \<longrightarrow> parsed c') \<and>
      (\<forall>r c'. AddIdentityFile HOME c hostname keyPath active = Some (r, c') \<longrightarrow> parsed c') \<and>
      sorted_wrt (\<lambda>a b. EndLine a \<le> StartLine b) (Blocks c) \<and>
      (\<forall>b \<in> set (Blocks c).
         StartLine b < EndLine b \<and> EndLine b \<le> length (Lines c) \<and>
         hostPattern (Lines c ! StartLine b) \<noteq> None \<and>
         BLines b = take (EndLine b - StartLine b) (drop (StartLine b) (Lines c))))"
proof (intro conjI impI)
  show "parseBlocks (parseBlocks c) = parseBlocks c" by (rule parseBlocks_idem)
  show "parsed (parseBlocks c)" by simp
  show "\<forall>c0. ParseConfig HOME fs path = Inr c0 \<longrightarrow> parsed c0"
    using ParseConfig_parsed by blast
next
  assume p: "parsed c"
  show "\<forall>r c'. ActivateKey HOME c hostname keyPath = Some (r, c') \<longrightarrow> parsed c'"
    using ActivateKey_keeps_parsed[OF p] by blast
  show "\<forall>r c'. AddIdentityFile HOME c hostname keyPath active = Some (r, c') \<longrightarrow> parsed c'"
    using AddIdentityFile_keeps_parsed[OF p] by blast
  show "sorted_wrt (\<lambda>a b. EndLine a \<le> StartLine b) (Blocks c)"
    using parsed_blocks(1)[OF p] .
  show "\<forall>b \<in> set (Blocks c).
         StartLine b < EndLine b \<and> EndLine b \<le> length (Lines c) \<and>
         hostPattern (Lines c ! StartLine b) \<noteq> None \<and>
         BLines b = take (EndLine b - StartLine b) (drop (StartLine b) (Lines c))"
    using parsed_blocks(2)[OF p] by auto
qed

theorem parseBlocks_invariant_witness:
  "parsed exWork \<and>
   ActivateKey exHome exWork ''work'' ''~/.ssh/id_personal'' = Some (None, exWorkAfter) \<and>
   parsed exWorkAfter \<and>
   map (\<lambda>b. (StartLine b, EndLine b)) (Blocks exWorkAfter) = [(1, 4), (4, 6)] \<and>
   sorted_wrt (\<lambda>a b. EndLine a \<le> StartLine b) (Blocks exWorkAfter)"
proof -
  have h: "parsed exWork" by code_simp
  have a: "ActivateKey exHome exWork ''work'' ''~/.ssh/id_personal'' = Some (None, exWorkAfter)"
    by code_simp
  have m: "map (\<lambda>b. (StartLine b, EndLine b)) (Blocks exWorkAfter) = [(1, 4), (4, 6)]"
    by code_simp
  from parseBlocks_invariant[of exWork exHome exFS "CfgPath exWork" "''work''"
      "''~/.ssh/id_personal''" False] h a
  have p': "parsed exWorkAfter" by blast
  from parseBlocks_invariant[of exWorkAfter exHome exFS "CfgPath exWork" "''work''"
      "''~/.ssh/id_personal''" False] p'
  have "sorted_wrt (\<lambda>a b. EndLine a \<le> StartLine b) (Blocks exWorkAfter)" by blast
  with h a m p' show ?thesis by blast
qed

text \<open>
  Claim C8. On a parsed configuration the host name of every block is the trimmed
  text its host line declares. \<open>FindHostBlock\<close> returns the first block, in the order
  of the file, whose host name is equal to the name asked for, and nothing when no
  block has an equal host name. Equality of strings is the only test: a block
  declared \<open>Host *.corp\<close> is found under \<open>*.corp\<close> and not under \<open>foo.corp\<close>.
\<close>

theorem FindHostBlock_first_literal:
  assumes "parsed c"
  shows "(\<forall>b \<in> set (Blocks c).
            \<exists>m. hostPattern (Lines c ! StartLine b) = Some m \<and> Hostname b = TrimSpace m) \<and>
         (FindHostBlock c hostname = None \<longleftrightarrow> (\<forall>b \<in> set (Blocks c). Hostname b \<noteq> hostname)) \<and>
         (\<forall>b. FindHostBlock c hostname = Some b \<longrightarrow>
            (\<exists>i < length (Blocks c). Blocks c ! i = b \<and> Hostname b = hostname \<and>
               (\<forall>j < i. Hostname (Blocks c ! j) \<noteq> hostname))) \<and>
         FindHostBlock exGlob ''foo.corp'' = None \<and>
         map_option Hostname (FindHostBlock exGlob ''*.corp'') = Some ''*.corp''"
proof (intro conjI)
  show "\<forall>b \<in> set (Blocks c).
          \<exists>m. hostPattern (Lines c ! StartLine b) = Some m \<and> Hostname b = TrimSpace m"
    using parsed_blocks(2)[OF assms] by blast
  show "FindHostBlock c hostname = None \<longleftrightarrow> (\<forall>b \<in> set (Blocks c). Hostname b \<noteq> hostname)"
    by (simp add: FindHostBlock_def findBlock_None)
  show "\<forall>b. FindHostBlock c hostname = Some b \<longrightarrow>
          (\<exists>i < length (Blocks c). Blocks c ! i = b \<and> Hostname b = hostname \<and>
             (\<forall>j < i. Hostname (Blocks c ! j) \<noteq> hostname))"
    using findBlock_Some by (auto simp: FindHostBlock_def)
  show "FindHostBlock exGlob ''foo.corp'' = None" by code_simp
  show "map_option Hostname (FindHostBlock exGlob ''*.corp'') = Some ''*.corp''" by code_simp
qed

theorem FindHostBlock_first_literal_witness:
  "parsed exGlob \<and>
   Blocks exGlob \<noteq> [] \<and>
   hostPattern (Lines exGlob ! 0) = Some ''*.corp'' \<and>
   FindHostBlock exGlob ''foo.corp'' = None \<and>
   map_option Hostname (FindHostBlock exGlob ''*.corp'') = Some ''*.corp'' \<and>
   map_option StartLine (FindHostBlock exGlob ''*.corp'') = Some 0"
proof -
  have h: "parsed exGlob" by code_simp
  have v: "Blocks exGlob \<noteq> []" "hostPattern (Lines exGlob ! 0) = Some ''*.corp''"
    "map_option StartLine (FindHostBlock exGlob ''*.corp'') = Some 0"
    by code_simp+
  from FindHostBlock_first_literal[OF h, of "''foo.corp''"]
  have "FindHostBlock exGlob ''foo.corp'' = None"
    "map_option Hostname (FindHostBlock exGlob ''*.corp'') = Some ''*.corp''"
    by blast+
  with h v show ?thesis by blast
qed

section \<open>What \<open>Save\<close> writes\<close>

lemma Join_last: "ls \<noteq> [] \<Longrightarrow> suffix (last ls) (Join ls sep)"
proof (induction ls sep rule: Join.induct)
  case (3 x y ys sep)
  then have "suffix (last (y # ys)) (Join (y # ys) sep)" by simp
  then show ?case by (auto simp: suffix_def)
qed simp_all

lemma Join_concat: "ls \<noteq> [] \<Longrightarrow> Join ls sep @ sep = concat (map (\<lambda>l. l @ sep) ls)"
  by (induction ls sep rule: Join.induct) simp_all

lemma Join_snoc: "ls \<noteq> [] \<Longrightarrow> Join (ls @ [l]) sep = Join ls sep @ sep @ l"
  by (induction ls sep rule: Join.induct) simp_all

lemma saveContent_cases:
  "saveContent c = Join (Lines c) [NL] \<or> saveContent c = Join (Lines c) [NL] @ [NL]"
  by (simp add: saveContent_def Let_def)

lemma saveContent_empty: "Lines c = [] \<Longrightarrow> saveContent c = []"
  by (simp add: saveContent_def)

lemma saveContent_terminated:
  assumes "Lines c \<noteq> []"
  shows "saveContent c \<noteq> [] \<and> last (saveContent c) = NL"
proof (cases "suffix [NL] (Join (Lines c) [NL])")
  case True
  then show ?thesis using assms by (auto simp: saveContent_def suffix_def)
next
  case False
  then show ?thesis using assms by (simp add: saveContent_def)
qed

lemma saveContent_one_newline:
  assumes "Lines c \<noteq> []" "last (Lines c) \<noteq> []" "last (last (Lines c)) \<noteq> NL"
  shows "saveContent c = Join (Lines c) [NL] @ [NL] \<and> \<not> suffix [NL] (Join (Lines c) [NL])"
proof -
  from Join_last[OF assms(1), of "[NL]"] obtain p where
    p: "Join (Lines c) [NL] = p @ last (Lines c)" by (auto simp: suffix_def)
  have "last (Join (Lines c) [NL]) = last (last (Lines c))" using assms(2) by (simp add: p)
  then have "\<not> suffix [NL] (Join (Lines c) [NL])" using assms(3) by (auto simp: suffix_def)
  then show ?thesis using assms(1) by (simp add: saveContent_def)
qed

lemma Save_writes:
  "Save c fs = (None, fs') \<Longrightarrow>
   files fs' (CfgPath c) = Some (saveContent c) \<and> unreadable fs' = unreadable fs"
  unfolding Save_def writeFile_def Let_def
  by (auto split: option.splits if_splits sum.splits)

text \<open>
  Claim C7, amended. When \<open>Save\<close> succeeds the destination holds \<open>saveContent\<close>. That
  text is the lines joined with newline separators, with one more newline exactly
  when there is a line and the joined text does not end in a newline already. So no
  line gives the empty text; one line or more gives a text that ends in a newline;
  and when the last line is not empty and does not end in a newline, the text is the
  joined lines and exactly one newline after them.
\<close>

theorem Save_content:
  "(\<forall>fs'. Save c fs = (None, fs') \<longrightarrow> files fs' (CfgPath c) = Some (saveContent c)) \<and>
   (saveContent c = Join (Lines c) [NL] \<or> saveContent c = Join (Lines c) [NL] @ [NL]) \<and>
   (saveContent c = Join (Lines c) [NL] @ [NL]
      \<longleftrightarrow> Lines c \<noteq> [] \<and> \<not> suffix [NL] (Join (Lines c) [NL])) \<and>
   (Lines c = [] \<longrightarrow> saveContent c = []) \<and>
   (Lines c \<noteq> [] \<longrightarrow> saveContent c \<noteq> [] \<and> last (saveContent c) = NL) \<and>
   (Lines c \<noteq> [] \<and> last (Lines c) \<noteq> [] \<and> last (last (Lines c)) \<noteq> NL \<longrightarrow>
      saveContent c = Join (Lines c) [NL] @ [NL] \<and> \<not> suffix [NL] (Join (Lines c) [NL]))"
proof (intro conjI)
  show "\<forall>fs'. Save c fs = (None, fs') \<longrightarrow> files fs' (CfgPath c) = Some (saveContent c)"
    using Save_writes by blast
  show "saveContent c = Join (Lines c) [NL] \<or> saveContent c = Join (Lines c) [NL] @ [NL]"
    by (rule saveContent_cases)
  show "saveContent c = Join (Lines c) [NL] @ [NL]
      \<longleftrightarrow> Lines c \<noteq> [] \<and> \<not> suffix [NL] (Join (Lines c) [NL])"
    by (auto simp: saveContent_def Let_def)
  show "Lines c = [] \<longrightarrow> saveContent c = []" using saveContent_empty by blast
  show "Lines c \<noteq> [] \<longrightarrow> saveContent c \<noteq> [] \<and> last (saveContent c) = NL"
    using saveContent_terminated by blast
  show "Lines c \<noteq> [] \<and> last (Lines c) \<noteq> [] \<and> last (last (Lines c)) \<noteq> NL \<longrightarrow>
      saveContent c = Join (Lines c) [NL] @ [NL] \<and> \<not> suffix [NL] (Join (Lines c) [NL])"
    using saveContent_one_newline by blast
qed

theorem Save_content_witness:
  "fst (Save exWork exFS) = None \<and>
   files (snd (Save exWork exFS)) (CfgPath exWork) = Some (saveContent exWork) \<and>
   Lines exWork \<noteq> [] \<and> last (saveContent exWork) = NL \<and>
   Lines (exCfg [''Host a'', ''  User git'']) = [''Host a'', ''  User git''] \<and>
   saveContent (exCfg [''Host a'', ''  User git''])
     = Join [''Host a'', ''  User git''] [NL] @ [NL] \<and>
   Lines (exCfg []) = [] \<and> saveContent (exCfg []) = []"
proof -
  have s: "fst (Save exWork exFS) = None" by code_simp
  then have "Save exWork exFS = (None, snd (Save exWork exFS))" by (metis prod.collapse)
  with Save_content[of exWork exFS]
  have f: "files (snd (Save exWork exFS)) (CfgPath exWork) = Some (saveContent exWork)"
    by blast
  have n: "Lines exWork \<noteq> []" by code_simp
  with Save_content[of exWork exFS] have l: "last (saveContent exWork) = NL" by blast
  have g: "Lines (exCfg [''Host a'', ''  User git'']) = [''Host a'', ''  User git'']"
    by code_simp
  then have "Lines (exCfg [''Host a'', ''  User git'']) \<noteq> [] \<and>
      last (Lines (exCfg [''Host a'', ''  User git''])) \<noteq> [] \<and>
      last (last (Lines (exCfg [''Host a'', ''  User git'']))) \<noteq> NL" by simp
  with Save_content[of "exCfg [''Host a'', ''  User git'']" exFS]
  have o: "saveContent (exCfg [''Host a'', ''  User git''])
     = Join (Lines (exCfg [''Host a'', ''  User git''])) [NL] @ [NL]" by blast
  have e: "Lines (exCfg []) = []" by code_simp
  with Save_content[of "exCfg []" exFS] have z: "saveContent (exCfg []) = []" by blast
  show ?thesis using s f n l g o[unfolded g] e z by blast
qed

text \<open>
  Claim C7 as stated fails: the configuration read from an absent file has no lines
  and is saved as the empty text, with no newline at its end; and lines that end in
  two empty lines are saved with two newlines at the end.
\<close>

theorem Save_trailing_newline_counterexample:
  "ParseConfig exHome exFS ''/home/u/.ssh/config''
     = Inr \<lparr>CfgPath = ''/home/u/.ssh/config'', Lines = [], Blocks = []\<rparr> \<and>
   fst (Save \<lparr>CfgPath = ''/home/u/.ssh/config'', Lines = [], Blocks = []\<rparr> exFS) = None \<and>
   files (snd (Save \<lparr>CfgPath = ''/home/u/.ssh/config'', Lines = [], Blocks = []\<rparr> exFS))
     ''/home/u/.ssh/config'' = Some [] \<and>
   saveContent (exCfg [''Host a'', [], []]) = ''Host a'' @ [NL, NL]"
  by code_simp

section \<open>Saving and reading again\<close>

lemma scanTokens_line:
  "NL \<notin> set l \<Longrightarrow> scanTokens cur (l @ NL # rest) = (cur @ l) # scanTokens [] rest"
  by (induction l arbitrary: cur) auto

lemma scanTokens_lines:
  "\<forall>l \<in> set ls. NL \<notin> set l \<Longrightarrow> scanTokens [] (concat (map (\<lambda>l. l @ [NL]) ls)) = ls"
proof (induction ls)
  case Nil
  then show ?case by simp
next
  case (Cons l ls)
  then have "NL \<notin> set l" by simp
  from scanTokens_line[OF this, of "[]" "concat (map (\<lambda>l. l @ [NL]) ls)"] Cons
  show ?case by simp
qed

lemma dropCR_id: "l \<noteq> [] \<longrightarrow> last l \<noteq> CR \<Longrightarrow> dropCR l = l"
  by (auto simp: dropCR_def)

lemma saveContent_scan:
  assumes "\<forall>l \<in> set (Lines c). NL \<notin> set l"
  shows "scanTokens [] (saveContent c) = Lines c \<or>
         (scanTokens [] (saveContent c) @ [[]] = Lines c)"
proof (cases "Lines c = []")
  case True
  then show ?thesis by (simp add: saveContent_def)
next
  case ne: False
  show ?thesis
  proof (cases "suffix [NL] (Join (Lines c) [NL])")
    case False
    then have "saveContent c = concat (map (\<lambda>l. l @ [NL]) (Lines c))"
      using ne Join_concat[OF ne, of "[NL]"] by (simp add: saveContent_def)
    then show ?thesis using scanTokens_lines[OF assms] by simp
  next
    case True
    then have sc: "saveContent c = Join (Lines c) [NL]" by (simp add: saveContent_def)
    from Join_last[OF ne, of "[NL]"] obtain p where
      p: "Join (Lines c) [NL] = p @ last (Lines c)" by (auto simp: suffix_def)
    have le: "last (Lines c) = []"
    proof (rule ccontr)
      assume n: "last (Lines c) \<noteq> []"
      then have "last (Join (Lines c) [NL]) = last (last (Lines c))" by (simp add: p)
      moreover have "last (last (Lines c)) \<in> set (last (Lines c))" using n by simp
      moreover have "last (Lines c) \<in> set (Lines c)" using ne by simp
      ultimately have "last (Join (Lines c) [NL]) \<noteq> NL" using assms by metis
      with True show False by (auto simp: suffix_def)
    qed
    obtain xs where xs: "Lines c = xs @ [[]]"
      using ne le by (metis append_butlast_last_id)
    have xne: "xs \<noteq> []"
    proof
      assume "xs = []"
      with xs True show False by simp
    qed
    have "saveContent c = concat (map (\<lambda>l. l @ [NL]) xs)"
      using Join_snoc[OF xne, of "[]" "[NL]"] Join_concat[OF xne, of "[NL]"]
      by (simp add: sc xs)
    moreover have "\<forall>l \<in> set xs. NL \<notin> set l" using assms xs by simp
    ultimately have "scanTokens [] (saveContent c) = xs" using scanTokens_lines by simp
    then show ?thesis using xs by simp
  qed
qed

lemma parseLoop_append:
  "parseLoop i (xs @ ys) cur bs =
   (case parseLoop i xs cur bs of (cur', bs') \<Rightarrow> parseLoop (i + length xs) ys cur' bs')"
  by (induction xs arbitrary: i cur bs) (auto split: option.splits)

lemma hostPattern_Nil: "hostPattern [] = None"
  by (simp add: hostPattern_def)

lemma identityFilePattern_Nil: "identityFilePattern [] = None"
  by (simp add: identityFilePattern_def)

lemma blockStructure_blank:
  "blockStructure (parseBlocks (c\<lparr>Lines := xs @ [[]]\<rparr>))
   = blockStructure (parseBlocks (c\<lparr>Lines := xs\<rparr>))"
proof -
  obtain cur bs where r: "parseLoop 0 xs None [] = (cur, bs)" by (cases "parseLoop 0 xs None []")
  have "parseLoop 0 (xs @ [[]]) None [] = (map_option (\<lambda>b. addLine b []) cur, bs)"
    by (cases cur) (simp_all add: parseLoop_append r hostPattern_Nil)
  then show ?thesis
    by (cases cur)
       (simp_all add: blockStructure_def parseBlocks_def r closeBlock_def addLine_def
          identityFilePattern_Nil)
qed

lemma blockStructure_Lines:
  "parsed c \<Longrightarrow> Lines c' = Lines c \<Longrightarrow> parsed c' \<Longrightarrow> blockStructure c' = blockStructure c"
  by (simp add: blockStructure_def parsed_def parseBlocks_def split: prod.splits)

lemma parseBlocks_with_Lines:
  "parseBlocks \<lparr>CfgPath = p, Lines = ls, Blocks = bs\<rparr>
   = (parseBlocks (c\<lparr>Lines := ls\<rparr>))\<lparr>CfgPath := p\<rparr>"
  by (simp add: parseBlocks_def split: prod.splits)

text \<open>
  Claim C6, amended. Take a parsed configuration whose lines hold no newline, do not
  end in a carriage return and are shorter than the scanner's buffer, with a path
  that is not empty and can be read. When \<open>Save\<close> succeeds, \<open>ParseConfig\<close> of the path
  on the file system \<open>Save\<close> leaves succeeds, and its configuration has the same
  structure: the same host names, and for each the same paths and commented flags, in
  the same order. Its lines are the lines saved, or those without one empty last line.
\<close>

theorem Save_ParseConfig_roundtrip:
  assumes "parsed c"
    and "\<forall>l \<in> set (Lines c).
           NL \<notin> set l \<and> (l \<noteq> [] \<longrightarrow> last l \<noteq> CR) \<and> length l < MaxScanTokenSize"
    and "CfgPath c \<noteq> []"
    and "CfgPath c \<notin> unreadable fs"
    and "Save c fs = (None, fs')"
  shows "\<exists>c'. ParseConfig HOME fs' (CfgPath c) = Inr c' \<and>
              blockStructure c' = blockStructure c \<and>
              (Lines c' = Lines c \<or> Lines c' @ [[]] = Lines c)"
proof -
  let ?raw = "scanTokens [] (saveContent c)"
  have nl: "\<forall>l \<in> set (Lines c). NL \<notin> set l" using assms(2) by blast
  have raw: "?raw = Lines c \<or> ?raw @ [[]] = Lines c" using saveContent_scan[OF nl] .
  then have sub: "set ?raw \<subseteq> set (Lines c)" by (metis set_append sup_ge1 subset_refl)
  have short: "list_all (\<lambda>l. length l < MaxScanTokenSize) ?raw"
    using sub assms(2) by (auto simp: list_all_iff)
  have "map dropCR ?raw = ?raw"
    using sub assms(2) by (intro map_idI dropCR_id) blast
  then have sl: "scanLines (saveContent c) = Some ?raw"
    using short by (simp add: scanLines_def Let_def)
  from Save_writes[OF assms(5)] have
    f: "files fs' (CfgPath c) = Some (saveContent c)" "CfgPath c \<notin> unreadable fs'"
    using assms(4) by simp_all
  let ?c' = "parseBlocks \<lparr>CfgPath = CfgPath c, Lines = ?raw, Blocks = []\<rparr>"
  have pc: "ParseConfig HOME fs' (CfgPath c) = Inr ?c'"
    using assms(3) f sl by (simp add: ParseConfig_def)
  have st0: "blockStructure ?c' = blockStructure (parseBlocks (c\<lparr>Lines := ?raw\<rparr>))"
    by (simp add: parseBlocks_with_Lines[of _ _ _ c] blockStructure_def)
  have stc: "blockStructure c = blockStructure (parseBlocks (c\<lparr>Lines := Lines c\<rparr>))"
    using assms(1) by (simp add: blockStructure_def parsed_def)
  have "blockStructure (parseBlocks (c\<lparr>Lines := ?raw\<rparr>))
        = blockStructure (parseBlocks (c\<lparr>Lines := Lines c\<rparr>))"
    using raw blockStructure_blank[where c=c and xs="?raw"] by (metis (no_types))
  then have st: "blockStructure ?c' = blockStructure c" using st0 stc by simp
  have "Lines ?c' = Lines c \<or> Lines ?c' @ [[]] = Lines c" using raw by simp
  with pc st show ?thesis by blast
qed

lemma scanLines_eval:
  "scanTokens [] content = raw \<Longrightarrow> list_all (\<lambda>l. length l < 65536) raw \<Longrightarrow>
   map dropCR raw = ls \<Longrightarrow> scanLines content = Some ls"
  by (simp add: scanLines_def MaxScanTokenSize_def)

lemma ParseConfig_eval:
  "path \<noteq> [] \<Longrightarrow> files fs path = Some content \<Longrightarrow> path \<notin> unreadable fs \<Longrightarrow>
   scanLines content = Some ls \<Longrightarrow>
   ParseConfig HOME fs path = Inr (parseBlocks \<lparr>CfgPath = path, Lines = ls, Blocks = []\<rparr>)"
  by (simp add: ParseConfig_def)

lemma parsed_equal:
  "parsed c \<Longrightarrow> parsed c' \<Longrightarrow> Lines c' = Lines c \<Longrightarrow> CfgPath c' = CfgPath c \<Longrightarrow> c' = c"
  by (cases c, cases c') (simp add: parsed_def parseBlocks_def split: prod.splits)

theorem Save_ParseConfig_roundtrip_witness:
  "parsed exWork \<and> fst (Save exWork exFS) = None \<and>
   ParseConfig exHome (snd (Save exWork exFS)) (CfgPath exWork) = Inr exWork \<and>
   blockStructure exWork
     = [(''work'', [(''~/.ssh/id_work'', False), (''~/.ssh/id_personal'', True)]),
        (''home'', [])]"
proof -
  have ls: "Lines exWork = [''# keys'', ''Host work'', ''    IdentityFile ~/.ssh/id_work'',
               ''    # IdentityFile ~/.ssh/id_personal'', ''Host home'', ''  User me'']"
    by code_simp
  have h: "parsed exWork" by code_simp
  have l: "\<forall>l \<in> set (Lines exWork).
      NL \<notin> set l \<and> (l \<noteq> [] \<longrightarrow> last l \<noteq> CR) \<and> length l < MaxScanTokenSize"
    unfolding ls MaxScanTokenSize_def by simp
  have p: "CfgPath exWork \<noteq> []" "CfgPath exWork \<notin> unreadable exFS" by code_simp+
  have s: "fst (Save exWork exFS) = None" by code_simp
  then have s': "Save exWork exFS = (None, snd (Save exWork exFS))" by (metis prod.collapse)
  from Save_ParseConfig_roundtrip[OF h l p s', of exHome] obtain c' where
    c': "ParseConfig exHome (snd (Save exWork exFS)) (CfgPath exWork) = Inr c'"
        "blockStructure c' = blockStructure exWork"
        "Lines c' = Lines exWork \<or> Lines c' @ [[]] = Lines exWork" by blast
  have "Lines c' @ [[]] \<noteq> Lines exWork" unfolding ls by (cases "Lines c'" rule: rev_cases) auto
  with c'(3) have lc: "Lines c' = Lines exWork" by blast
  have pth: "CfgPath c' = CfgPath exWork"
    using c'(1) p(1) by (auto simp: ParseConfig_def Let_def split: option.splits if_splits)
  have "parsed c'" using ParseConfig_parsed[OF c'(1)] .
  then have "c' = exWork" using h lc pth by (intro parsed_equal)
  then have r: "ParseConfig exHome (snd (Save exWork exFS)) (CfgPath exWork) = Inr exWork"
    using c'(1) by simp
  have "blockStructure exWork
     = [(''work'', [(''~/.ssh/id_work'', False), (''~/.ssh/id_personal'', True)]),
        (''home'', [])]" by code_simp
  with h s r show ?thesis by blast
qed

text \<open>
  Claim C6 as stated fails in two ways. A file whose line is \<open>Host\<close> and three
  carriage returns is read as a block with the empty host name, and read again after
  \<open>Save\<close> it has no block. A key path with a newline is inserted as one line, which
  is no entry, and is read again after \<open>Save\<close> as an entry and a second host block.
\<close>

theorem Save_ParseConfig_roundtrip_counterexample:
  "ParseConfig exHome exCRFS ''/home/u/.ssh/config'' = Inr (exCfg [''Host'' @ [CR, CR]]) \<and>
   blockStructure (exCfg [''Host'' @ [CR, CR]]) = [([], [])] \<and>
   fst (Save (exCfg [''Host'' @ [CR, CR]]) exCRFS) = None \<and>
   ParseConfig exHome (snd (Save (exCfg [''Host'' @ [CR, CR]]) exCRFS)) ''/home/u/.ssh/config''
     = Inr (exCfg [''Host'' @ [CR]]) \<and>
   blockStructure (exCfg [''Host'' @ [CR]]) = [] \<and>
   AddIdentityFile exHome (exCfg [''Host a'']) ''a'' (''k'' @ [NL] @ ''Host b'') True
     = Some (None, exCfg [''Host a'', ''    IdentityFile k'' @ [NL] @ ''Host b'']) \<and>
   blockStructure (exCfg [''Host a'', ''    IdentityFile k'' @ [NL] @ ''Host b''])
     = [(''a'', [])] \<and>
   fst (Save (exCfg [''Host a'', ''    IdentityFile k'' @ [NL] @ ''Host b'']) exFS) = None \<and>
   ParseConfig exHome
       (snd (Save (exCfg [''Host a'', ''    IdentityFile k'' @ [NL] @ ''Host b'']) exFS))
       ''/home/u/.ssh/config''
     = Inr (exCfg [''Host a'', ''    IdentityFile k'', ''Host b'']) \<and>
   blockStructure (exCfg [''Host a'', ''    IdentityFile k'', ''Host b''])
     = [(''a'', [(''k'', False)]), (''b'', [])]"
proof -
  let ?p = "''/home/u/.ssh/config''"
  let ?c1 = "exCfg [''Host'' @ [CR, CR]]"
  let ?c3 = "exCfg [''Host a'', ''    IdentityFile k'' @ [NL] @ ''Host b'']"
  have pn: "?p \<noteq> []" by simp
  have r1: "ParseConfig exHome exCRFS ?p = Inr ?c1"
  proof -
    have "scanLines (''Host'' @ [CR, CR, CR, NL]) = Some [''Host'' @ [CR, CR]]"
      by (rule scanLines_eval[where raw = "[''Host'' @ [CR, CR, CR]]"])
         (code_simp, simp, code_simp)
    moreover have "files exCRFS ?p = Some (''Host'' @ [CR, CR, CR, NL])"
      "?p \<notin> unreadable exCRFS" by code_simp+
    ultimately show ?thesis
      using ParseConfig_eval[OF pn, of exCRFS _ "[''Host'' @ [CR, CR]]" exHome]
      by (simp add: exCfg_def)
  qed
  have r2: "ParseConfig exHome (snd (Save ?c1 exCRFS)) ?p = Inr (exCfg [''Host'' @ [CR]])"
  proof -
    have "scanLines (''Host'' @ [CR, CR, NL]) = Some [''Host'' @ [CR]]"
      by (rule scanLines_eval[where raw = "[''Host'' @ [CR, CR]]"])
         (code_simp, simp, code_simp)
    moreover have "files (snd (Save ?c1 exCRFS)) ?p = Some (''Host'' @ [CR, CR, NL])"
      "?p \<notin> unreadable (snd (Save ?c1 exCRFS))" by code_simp+
    ultimately show ?thesis
      using ParseConfig_eval[OF pn, of "snd (Save ?c1 exCRFS)" _ "[''Host'' @ [CR]]" exHome]
      by (simp add: exCfg_def)
  qed
  have r3: "ParseConfig exHome (snd (Save ?c3 exFS)) ?p
              = Inr (exCfg [''Host a'', ''    IdentityFile k'', ''Host b''])"
  proof -
    have "scanLines (''Host a'' @ [NL] @ ''    IdentityFile k'' @ [NL] @ ''Host b'' @ [NL])
            = Some [''Host a'', ''    IdentityFile k'', ''Host b'']"
      by (rule scanLines_eval[where raw = "[''Host a'', ''    IdentityFile k'', ''Host b'']"])
         (code_simp, simp, code_simp)
    moreover have "files (snd (Save ?c3 exFS)) ?p
            = Some (''Host a'' @ [NL] @ ''    IdentityFile k'' @ [NL] @ ''Host b'' @ [NL])"
      "?p \<notin> unreadable (snd (Save ?c3 exFS))" by code_simp+
    ultimately show ?thesis
      using ParseConfig_eval[OF pn, of "snd (Save ?c3 exFS)" _
              "[''Host a'', ''    IdentityFile k'', ''Host b'']" exHome]
      by (simp add: exCfg_def)
  qed
  have e: "blockStructure ?c1 = [([], [])]"
    "fst (Save ?c1 exCRFS) = None"
    "blockStructure (exCfg [''Host'' @ [CR]]) = []"
    "AddIdentityFile exHome (exCfg [''Host a'']) ''a'' (''k'' @ [NL] @ ''Host b'') True
       = Some (None, ?c3)"
    "blockStructure ?c3 = [(''a'', [])]"
    "fst (Save ?c3 exFS) = None"
    "blockStructure (exCfg [''Host a'', ''    IdentityFile k'', ''Host b''])
       = [(''a'', [(''k'', False)]), (''b'', [])]"
    by code_simp+
  show ?thesis using r1 r2 r3 e by blast
qed

end
